theory Spec2Isabelle
  imports Main "HOL-Library.AList"
begin

section \<open>Suffix tree construction: the embedding of ukkonen\_algorithm.py\<close>

subsection \<open>Python values\<close>

text \<open>
  The only exception the construction can raise is the IndexError of a string subscript
  \<^verbatim>\<open>self.text[i]\<close>. Python counts a negative subscript from the end of the string.
\<close>

datatype error = IndexError

definition subscript :: "string \<Rightarrow> int \<Rightarrow> error + char" where
  "subscript t i =
     (let n = int (length t); j = (if i < 0 then n + i else i)
      in if 0 \<le> j \<and> j < n then Inr (t ! nat j) else Inl IndexError)"

subsection \<open>Nodes and the object store\<close>

text \<open>
  \<^verbatim>\<open>SuffixTreeNode.end\<close> is either an integer or the one-element list object
  \<^verbatim>\<open>SuffixTree.leaf_end\<close> itself: \<open>Shared\<close> is that reference, which holds no value
  of its own. Nodes are objects compared by identity; a node's identity is its position
  in the store \<open>nodes\<close>, in order of allocation. A \<^verbatim>\<open>children\<close> dictionary is an
  association list in insertion order (an assignment to an existing key keeps its place).
\<close>

datatype end_ref = Fixed int | Shared

record node =
  children :: "(char \<times> nat) list"
  suffix_link :: "nat option"
  start :: int
  edge_end :: end_ref
  index :: int

definition new_node :: "int \<Rightarrow> end_ref \<Rightarrow> node" where
  "new_node st en =
     \<lparr>children = [], suffix_link = None, start = st, edge_end = en, index = - 1\<rparr>"

text \<open>
  The tree object. \<open>tree_text\<close> is \<^verbatim>\<open>self.text\<close>, \<open>tree_size\<close> is \<^verbatim>\<open>self.size\<close>,
  \<open>leaf_end\<close> is the content \<^verbatim>\<open>self.leaf_end[0]\<close> of the shared list. The root is the
  first node allocated. \<open>leaf_end_writes\<close> is a history variable: every executed assignment
  \<^verbatim>\<open>self.leaf_end[0] = v\<close> appends \<open>v\<close> to it; nothing reads it.
\<close>

record suffix_tree =
  tree_text :: string
  tree_size :: int
  nodes :: "node list"
  active_node :: nat
  active_edge :: int
  active_length :: int
  remaining_suffix_count :: int
  leaf_end :: int
  last_new_node :: "nat option"
  leaf_end_writes :: "int list"

definition root :: nat where
  "root = 0"

definition edge_length :: "suffix_tree \<Rightarrow> nat \<Rightarrow> int" where
  "edge_length s n =
     (case edge_end (nodes s ! n) of
        Shared \<Rightarrow> leaf_end s - start (nodes s ! n) + 1
      | Fixed e \<Rightarrow> e - start (nodes s ! n) + 1)"

definition set_child :: "nat \<Rightarrow> char \<Rightarrow> nat \<Rightarrow> node list \<Rightarrow> node list" where
  "set_child p c k ns = ns[p := (ns ! p)\<lparr>children := AList.update c k (children (ns ! p))\<rparr>]"

definition set_suffix_link :: "nat \<Rightarrow> nat \<Rightarrow> node list \<Rightarrow> node list" where
  "set_suffix_link p l ns = ns[p := (ns ! p)\<lparr>suffix_link := Some l\<rparr>]"

definition set_start :: "nat \<Rightarrow> int \<Rightarrow> node list \<Rightarrow> node list" where
  "set_start p v ns = ns[p := (ns ! p)\<lparr>start := v\<rparr>]"

definition set_index :: "nat \<Rightarrow> int \<Rightarrow> node list \<Rightarrow> node list" where
  "set_index p v ns = ns[p := (ns ! p)\<lparr>index := v\<rparr>]"

subsection \<open>One pass through the body of the while loop\<close>

text \<open>
  Lines 62 to 101 of \<^verbatim>\<open>_extend_suffix_tree\<close>. The pass ends in one of four ways:
  \<open>Skipped\<close> is the \<^verbatim>\<open>continue\<close> of the skip/count trick, \<open>Stopped\<close> the \<^verbatim>\<open>break\<close>,
  \<open>Extended\<close> reaches line 103 after a new leaf or a split, \<open>Raised\<close> is an exception.
\<close>

datatype outcome = Skipped suffix_tree | Stopped suffix_tree | Extended suffix_tree | Raised error

definition new_leaf :: "int \<Rightarrow> char \<Rightarrow> suffix_tree \<Rightarrow> suffix_tree" where
  "new_leaf pos current_char s =
     (let leaf = length (nodes s);
          ns = set_child (active_node s) current_char leaf (nodes s @ [new_node pos Shared])
      in case last_new_node s of
           None \<Rightarrow> s\<lparr>nodes := ns\<rparr>
         | Some l \<Rightarrow> s\<lparr>nodes := set_suffix_link l (active_node s) ns, last_new_node := None\<rparr>)"

definition premature_stop :: "suffix_tree \<Rightarrow> suffix_tree" where
  "premature_stop s =
     (let s1 = (case last_new_node s of
                  None \<Rightarrow> s
                | Some l \<Rightarrow>
                    if active_node s \<noteq> root
                    then s\<lparr>nodes := set_suffix_link l (active_node s) (nodes s),
                           last_new_node := None\<rparr>
                    else s)
      in s1\<lparr>active_length := active_length s1 + 1\<rparr>)"

definition split_edge :: "int \<Rightarrow> char \<Rightarrow> nat \<Rightarrow> char \<Rightarrow> suffix_tree \<Rightarrow> outcome" where
  "split_edge pos current_char next_node text_pos s =
     (let split_end = start (nodes s ! next_node) + active_length s - 1;
          split_node = length (nodes s);
          ns1 = set_child (active_node s) current_char split_node
                  (nodes s @ [new_node (start (nodes s ! next_node)) (Fixed split_end)]);
          leaf = length ns1;
          ns2 = set_child split_node text_pos leaf (ns1 @ [new_node pos Shared]);
          ns3 = set_start next_node (start (ns2 ! next_node) + active_length s) ns2
      in case subscript (tree_text s) (start (ns3 ! next_node)) of
           Inl e \<Rightarrow> Raised e
         | Inr c \<Rightarrow>
             (let ns4 = set_child split_node c next_node ns3;
                  ns5 = (case last_new_node s of
                           None \<Rightarrow> ns4
                         | Some l \<Rightarrow> set_suffix_link l split_node ns4)
              in Extended (s\<lparr>nodes := ns5, last_new_node := Some split_node\<rparr>)))"

definition extend_once :: "int \<Rightarrow> suffix_tree \<Rightarrow> outcome" where
  "extend_once pos s0 =
     (let s = (if active_length s0 = 0 then s0\<lparr>active_edge := pos\<rparr> else s0)
      in case subscript (tree_text s) (active_edge s) of
           Inl e \<Rightarrow> Raised e
         | Inr current_char \<Rightarrow>
             (case map_of (children (nodes s ! active_node s)) current_char of
                None \<Rightarrow> Extended (new_leaf pos current_char s)
              | Some next_node \<Rightarrow>
                  (let el = edge_length s next_node
                   in if active_length s \<ge> el
                      then Skipped (s\<lparr>active_edge := active_edge s + el,
                                      active_length := active_length s - el,
                                      active_node := next_node\<rparr>)
                      else case subscript (tree_text s) (start (nodes s ! next_node) + active_length s) of
                             Inl e \<Rightarrow> Raised e
                           | Inr a \<Rightarrow>
                               (case subscript (tree_text s) pos of
                                  Inl e \<Rightarrow> Raised e
                                | Inr b \<Rightarrow>
                                    if a = b then Stopped (premature_stop s)
                                    else split_edge pos current_char next_node b s))))"

text \<open>Lines 105 to 109: the active point after an extension.\<close>

definition update_active_point :: "int \<Rightarrow> suffix_tree \<Rightarrow> suffix_tree" where
  "update_active_point pos s =
     (if active_node s = root \<and> active_length s > 0
      then s\<lparr>active_length := active_length s - 1,
             active_edge := pos - remaining_suffix_count s + 1\<rparr>
      else if active_node s \<noteq> root
      then s\<lparr>active_node := (case suffix_link (nodes s ! active_node s) of
                                Some l \<Rightarrow> l
                              | None \<Rightarrow> root)\<rparr>
      else s)"

subsection \<open>The phase, the construction and the finalization\<close>

text \<open>
  The while loop of line 61. It is not obviously terminating, so it is a partial function:
  \<open>None\<close> is a loop that runs forever, \<open>Some (Inl e)\<close> an exception, \<open>Some (Inr s)\<close> the
  tree when the loop is left.
\<close>

partial_function (option) extension_loop :: "int \<Rightarrow> suffix_tree \<Rightarrow> (error + suffix_tree) option" where
  "extension_loop pos s =
     (if remaining_suffix_count s > 0
      then (case extend_once pos s of
              Raised e \<Rightarrow> Some (Inl e)
            | Stopped s' \<Rightarrow> Some (Inr s')
            | Skipped s' \<Rightarrow> extension_loop pos s'
            | Extended s' \<Rightarrow>
                extension_loop pos
                  (update_active_point pos
                     (s'\<lparr>remaining_suffix_count := remaining_suffix_count s' - 1\<rparr>)))
      else Some (Inr s))"

declare extension_loop.simps [code]

definition phase_header :: "int \<Rightarrow> suffix_tree \<Rightarrow> suffix_tree" where
  "phase_header pos s =
     s\<lparr>leaf_end := pos, leaf_end_writes := leaf_end_writes s @ [pos],
       remaining_suffix_count := remaining_suffix_count s + 1,
       last_new_node := None\<rparr>"

definition extend_suffix_tree :: "int \<Rightarrow> suffix_tree \<Rightarrow> (error + suffix_tree) option" where
  "extend_suffix_tree pos s = extension_loop pos (phase_header pos s)"

fun build_phases :: "nat \<Rightarrow> int \<Rightarrow> suffix_tree \<Rightarrow> (error + suffix_tree) option" where
  "build_phases 0 pos s = Some (Inr s)"
| "build_phases (Suc n) pos s =
     (case extend_suffix_tree pos s of
        None \<Rightarrow> None
      | Some (Inl e) \<Rightarrow> Some (Inl e)
      | Some (Inr s') \<Rightarrow> build_phases n (pos + 1) s')"

definition init_tree :: "string \<Rightarrow> suffix_tree" where
  "init_tree t =
     \<lparr>tree_text = t, tree_size = int (length t),
      nodes = [(new_node (- 1) (Fixed (- 1)))\<lparr>suffix_link := Some root\<rparr>],
      active_node = root, active_edge = - 1, active_length = 0,
      remaining_suffix_count = 0, leaf_end = - 1, last_new_node = None,
      leaf_end_writes = []\<rparr>"

definition build_suffix_tree :: "suffix_tree \<Rightarrow> (error + suffix_tree) option" where
  "build_suffix_tree s = build_phases (nat (tree_size s)) 0 s"

definition SuffixTree :: "string \<Rightarrow> (error + suffix_tree) option" where
  "SuffixTree t = build_suffix_tree (init_tree t)"

definition make_explicit :: "suffix_tree \<Rightarrow> (error + suffix_tree) option" where
  "make_explicit s =
     (let pos = tree_size s;
          s1 = s\<lparr>tree_text := tree_text s @ ''$'', tree_size := tree_size s + 1\<rparr>;
          s2 = s1\<lparr>leaf_end := pos, leaf_end_writes := leaf_end_writes s1 @ [pos],
                 remaining_suffix_count := remaining_suffix_count s1 + 1,
                 last_new_node := None\<rparr>
      in extend_suffix_tree pos s2)"

definition explicit_tree :: "string \<Rightarrow> (error + suffix_tree) option" where
  "explicit_tree t =
     (case SuffixTree t of
        None \<Rightarrow> None
      | Some (Inl e) \<Rightarrow> Some (Inl e)
      | Some (Inr s) \<Rightarrow> make_explicit s)"

subsection \<open>Suffix indices\<close>

text \<open>
  \<^verbatim>\<open>set_suffix_index_by_dfs\<close> is recursive over the object graph. Its first argument
  bounds the depth of the recursion: \<open>None\<close> is a traversal that does not finish within
  that depth (Python's RecursionError, or a cyclic structure). The \<^verbatim>\<open>for\<close> loop over
  \<^verbatim>\<open>node.children.values()\<close> is \<open>dfs_children\<close>.
\<close>

fun set_suffix_index_by_dfs :: "nat \<Rightarrow> suffix_tree \<Rightarrow> nat option \<Rightarrow> int \<Rightarrow> suffix_tree option"
  and dfs_children :: "nat \<Rightarrow> suffix_tree \<Rightarrow> nat list \<Rightarrow> int \<Rightarrow> suffix_tree option" where
  "set_suffix_index_by_dfs 0 s node label_length = None"
| "set_suffix_index_by_dfs (Suc f) s None label_length = Some s"
| "set_suffix_index_by_dfs (Suc f) s (Some n) label_length =
     (if length (children (nodes s ! n)) = 0
      then Some (s\<lparr>nodes := set_index n (tree_size s - label_length) (nodes s)\<rparr>)
      else dfs_children f s (map snd (children (nodes s ! n))) label_length)"
| "dfs_children f s [] label_length = Some s"
| "dfs_children f s (child # cs) label_length =
     (case set_suffix_index_by_dfs f s (Some child) (label_length + edge_length s child) of
        None \<Rightarrow> None
      | Some s' \<Rightarrow> dfs_children f s' cs label_length)"

subsection \<open>Edge labels\<close>

text \<open>
  \<^verbatim>\<open>_print_tree\<close> reads the label of the edge into a node as the slice
  \<^verbatim>\<open>self.text[child.start : end_index + 1]\<close>; a Python slice clips its bounds.
\<close>

definition slice :: "string \<Rightarrow> int \<Rightarrow> int \<Rightarrow> string" where
  "slice t i j =
     (let n = int (length t);
          lo = (if i < 0 then max (n + i) 0 else min i n);
          hi = (if j < 0 then max (n + j) 0 else min j n)
      in take (nat (hi - lo)) (drop (nat lo) t))"

definition edge_label :: "suffix_tree \<Rightarrow> nat \<Rightarrow> string" where
  "edge_label s n =
     (let end_index = (case edge_end (nodes s ! n) of Shared \<Rightarrow> leaf_end s | Fixed e \<Rightarrow> e)
      in slice (tree_text s) (start (nodes s ! n)) (end_index + 1))"

text \<open>
  The strings read from a node down to each leaf below it, in the order of
  \<^verbatim>\<open>_print_tree\<close>; the first argument bounds the depth.
\<close>

fun leaf_strings :: "nat \<Rightarrow> suffix_tree \<Rightarrow> nat \<Rightarrow> string \<Rightarrow> string list" where
  "leaf_strings 0 s n acc = []"
| "leaf_strings (Suc f) s n acc =
     (if children (nodes s ! n) = [] then [acc]
      else concat (map (\<lambda>(c, k). leaf_strings f s k (acc @ edge_label s k))
                     (children (nodes s ! n))))"

definition leaf_strings_of :: "suffix_tree \<Rightarrow> string list" where
  "leaf_strings_of s = leaf_strings (Suc (length (nodes s))) s root []"

definition explicit_leaf_strings :: "string \<Rightarrow> (error + string list) option" where
  "explicit_leaf_strings t = map_option (map_sum id leaf_strings_of) (explicit_tree t)"

definition suffixes_of :: "string \<Rightarrow> string list" where
  "suffixes_of t = map (\<lambda>i. drop i t) [0..<length t]"

subsection \<open>Paths and the shape of the object graph\<close>

text \<open>
  \<open>descends s n ks\<close>: the nodes \<open>ks\<close> are met in this order going down from \<open>n\<close>, each a
  child of the one before. \<open>label_length s ks\<close> is the length accumulated along them.
\<close>

fun descends :: "suffix_tree \<Rightarrow> nat \<Rightarrow> nat list \<Rightarrow> bool" where
  "descends s n [] = True"
| "descends s n (k # ks) = (k \<in> snd ` set (children (nodes s ! n)) \<and> descends s k ks)"

definition label_length :: "suffix_tree \<Rightarrow> nat list \<Rightarrow> int" where
  "label_length s ks = sum_list (map (edge_length s) ks)"

text \<open>
  The entries of all \<^verbatim>\<open>children\<close> dictionaries: \<open>(n, c, k)\<close> when node \<open>n\<close> maps the
  symbol \<open>c\<close> to node \<open>k\<close>. They form a forest over \<open>N\<close> nodes when no reference dangles,
  no node has two parents or two keys, and some height decreases along every entry.
\<close>

definition child_entries :: "node list \<Rightarrow> (nat \<times> char \<times> nat) set" where
  "child_entries ns = {(n, c, k). n < length ns \<and> map_of (children (ns ! n)) c = Some k}"

definition forest :: "(nat \<times> char \<times> nat) set \<Rightarrow> nat \<Rightarrow> bool" where
  "forest E N \<longleftrightarrow>
     (\<forall>(n, c, k) \<in> E. n < N \<and> k < N) \<and>
     (\<forall>(n, c, k) \<in> E. \<forall>(n', c', k') \<in> E. k = k' \<longrightarrow> n = n' \<and> c = c') \<and>
     (\<exists>h :: nat \<Rightarrow> nat. \<forall>(n, c, k) \<in> E. h k < h n)"

definition tree_shaped :: "node list \<Rightarrow> bool" where
  "tree_shaped ns \<longleftrightarrow>
     (\<forall>n < length ns. distinct (map fst (children (ns ! n)))) \<and>
     forest (child_entries ns) (length ns)"

text \<open>
  What the construction keeps true of the object store: the children form a forest, no
  suffix link and no pointer of the tree object dangles, and no node has a suffix index.
\<close>

definition links_ok :: "node list \<Rightarrow> bool" where
  "links_ok ns \<longleftrightarrow> (\<forall>n < length ns. \<forall>l. suffix_link (ns ! n) = Some l \<longrightarrow> l < length ns)"

definition unindexed :: "node list \<Rightarrow> bool" where
  "unindexed ns \<longleftrightarrow> (\<forall>n < length ns. index (ns ! n) = - 1)"

definition tree_inv :: "suffix_tree \<Rightarrow> bool" where
  "tree_inv s \<longleftrightarrow>
     tree_shaped (nodes s) \<and> links_ok (nodes s) \<and> unindexed (nodes s) \<and>
     active_node s < length (nodes s) \<and>
     (\<forall>l. last_new_node s = Some l \<longrightarrow> l < length (nodes s))"

text \<open>
  \<open>only_leaf_indices_changed s s'\<close>: the tree object \<open>s'\<close> is \<open>s\<close> except for the
  \<^verbatim>\<open>index\<close> field of nodes without children. \<open>path_indexed s s' m\<close>: the index of node
  \<open>m\<close> in \<open>s'\<close> is the size minus the length accumulated along every path of \<open>s\<close> from the
  root to \<open>m\<close>.
\<close>

definition only_leaf_indices_changed :: "suffix_tree \<Rightarrow> suffix_tree \<Rightarrow> bool" where
  "only_leaf_indices_changed s s' \<longleftrightarrow>
     s'\<lparr>nodes := nodes s\<rparr> = s \<and> length (nodes s') = length (nodes s) \<and>
     (\<forall>n < length (nodes s).
        (nodes s' ! n)\<lparr>index := index (nodes s ! n)\<rparr> = nodes s ! n \<and>
        (children (nodes s ! n) \<noteq> [] \<longrightarrow> nodes s' ! n = nodes s ! n))"

definition path_indexed :: "suffix_tree \<Rightarrow> suffix_tree \<Rightarrow> nat \<Rightarrow> bool" where
  "path_indexed s s' m \<longleftrightarrow>
     (\<forall>ks. descends s root ks \<and> last (root # ks) = m \<longrightarrow>
        index (nodes s' ! m) = tree_size s - label_length s ks)"

text \<open>
  \<open>ranked s h\<close>: every child is a node of the store and lies strictly below its parent in
  the ranking \<open>h\<close>, and no node is a child of two nodes. \<open>index_frame s0 s s'\<close>: from \<open>s\<close> to
  \<open>s'\<close> a node keeps its index or gets the one its path asks for. \<open>indexed_below s0 s' n\<close>:
  every leaf under \<open>n\<close> has the index its path asks for.
\<close>

definition ranked :: "suffix_tree \<Rightarrow> (nat \<Rightarrow> nat) \<Rightarrow> bool" where
  "ranked s h \<longleftrightarrow>
     (\<forall>n k. n < length (nodes s) \<and> k \<in> snd ` set (children (nodes s ! n)) \<longrightarrow>
        k < length (nodes s) \<and> h k < h n) \<and>
     (\<forall>n n' k. n < length (nodes s) \<and> n' < length (nodes s) \<and>
        k \<in> snd ` set (children (nodes s ! n)) \<and> k \<in> snd ` set (children (nodes s ! n')) \<longrightarrow>
        n = n')"

definition index_frame :: "suffix_tree \<Rightarrow> suffix_tree \<Rightarrow> suffix_tree \<Rightarrow> bool" where
  "index_frame s0 s s' \<longleftrightarrow>
     (\<forall>m < length (nodes s0).
        index (nodes s' ! m) = index (nodes s ! m) \<or> path_indexed s0 s' m)"

definition indexed_below :: "suffix_tree \<Rightarrow> suffix_tree \<Rightarrow> nat \<Rightarrow> bool" where
  "indexed_below s0 s' n \<longleftrightarrow>
     (\<forall>ks. descends s0 n ks \<and> children (nodes s0 ! last (n # ks)) = [] \<longrightarrow>
        path_indexed s0 s' (last (n # ks)))"

text \<open>
  \<open>path_label s ks\<close> is the string read along the nodes \<open>ks\<close>: the concatenation of
  their edge labels, as \<^verbatim>\<open>_print_tree\<close> slices them out of the text. \<open>node_ok le nd\<close>: with
  the leaf end at \<open>le\<close>, the edge into \<open>nd\<close> starts at a position of the text and ends, at \<open>le\<close>
  at most, no earlier than one before its start. \<open>edges_ok s\<close>: the active length is not
  negative, every node but the root is \<open>node_ok\<close>, and the root is no node's child.
\<close>

definition path_label :: "suffix_tree \<Rightarrow> nat list \<Rightarrow> string" where
  "path_label s ks = concat (map (edge_label s) ks)"

definition node_ok :: "int \<Rightarrow> node \<Rightarrow> bool" where
  "node_ok le nd \<longleftrightarrow>
     0 \<le> start nd \<and> start nd \<le> le + 1 \<and>
     (\<forall>e. edge_end nd = Fixed e \<longrightarrow> start nd \<le> e + 1 \<and> e \<le> le)"

definition edges_in_range :: "int \<Rightarrow> node list \<Rightarrow> bool" where
  "edges_in_range le ns \<longleftrightarrow> (\<forall>n < length ns. n \<noteq> root \<longrightarrow> node_ok le (ns ! n))"

definition root_no_child :: "node list \<Rightarrow> bool" where
  "root_no_child ns \<longleftrightarrow> (\<forall>n < length ns. \<forall>c. (c, root) \<notin> set (children (ns ! n)))"

definition edges_ok :: "suffix_tree \<Rightarrow> bool" where
  "edges_ok s \<longleftrightarrow>
     0 \<le> active_length s \<and> edges_in_range (leaf_end s) (nodes s) \<and> root_no_child (nodes s)"

subsection \<open>Finalization as the specification words it\<close>

text \<open>
  Section 4.4 of the specification: append one terminator symbol, then run exactly one
  more phase for that position.
\<close>

definition finalize_spec :: "suffix_tree \<Rightarrow> (error + suffix_tree) option" where
  "finalize_spec s =
     extend_suffix_tree (tree_size s)
       (s\<lparr>tree_text := tree_text s @ ''$'', tree_size := tree_size s + 1\<rparr>)"

definition finalized_by_spec :: "string \<Rightarrow> (error + suffix_tree) option" where
  "finalized_by_spec t =
     (case SuffixTree t of
        None \<Rightarrow> None
      | Some (Inl e) \<Rightarrow> Some (Inl e)
      | Some (Inr s) \<Rightarrow> finalize_spec s)"

subsection \<open>Queries\<close>

text \<open>
  Modelled from the spec: the repository has no \<^verbatim>\<open>contains\<close> and no \<^verbatim>\<open>find_all\<close>.
  Section 4.4 of the specification: the walk goes from the root matching the pattern
  against the edge labels; \<^verbatim>\<open>find_all\<close> makes that walk and then enumerates the leaves
  of the subtree reached, returning their suffix indices. \<open>walk\<close> returns the node whose
  subtree is reached. The first argument of \<open>walk\<close> and \<open>leaf_indices\<close> bounds the depth.
\<close>

fun walk :: "nat \<Rightarrow> suffix_tree \<Rightarrow> nat \<Rightarrow> string \<Rightarrow> nat option" where
  "walk 0 s n p = None"
| "walk (Suc f) s n p =
     (if p = [] then Some n
      else case map_of (children (nodes s ! n)) (hd p) of
             None \<Rightarrow> None
           | Some k \<Rightarrow>
               (let lbl = edge_label s k
                in if length p \<le> length lbl
                   then (if take (length p) lbl = p then Some k else None)
                   else (if take (length lbl) p = lbl then walk f s k (drop (length lbl) p)
                         else None)))"

fun leaf_indices :: "nat \<Rightarrow> suffix_tree \<Rightarrow> nat \<Rightarrow> int list" where
  "leaf_indices 0 s n = []"
| "leaf_indices (Suc f) s n =
     (if children (nodes s ! n) = [] then [index (nodes s ! n)]
      else concat (map (\<lambda>(c, k). leaf_indices f s k) (children (nodes s ! n))))"

definition contains :: "suffix_tree \<Rightarrow> string \<Rightarrow> bool" where
  "contains s p = (walk (Suc (length (nodes s))) s root p \<noteq> None)"

definition find_all :: "suffix_tree \<Rightarrow> string \<Rightarrow> int list" where
  "find_all s p =
     (case walk (Suc (length (nodes s))) s root p of
        None \<Rightarrow> []
      | Some n \<Rightarrow> leaf_indices (Suc (length (nodes s))) s n)"

text \<open>
  The call order of the interface: construction, finalization, suffix-index assignment
  from the root with accumulated length 0, then the query.
\<close>

definition indexed_tree :: "string \<Rightarrow> suffix_tree option" where
  "indexed_tree t =
     (case explicit_tree t of
        Some (Inr s) \<Rightarrow> set_suffix_index_by_dfs (Suc (length (nodes s))) s (Some root) 0
      | _ \<Rightarrow> None)"

definition find_all_in :: "string \<Rightarrow> string \<Rightarrow> int list option" where
  "find_all_in t p = map_option (\<lambda>s. find_all s p) (indexed_tree t)"

text \<open>The brute-force scan: the start indices at which \<open>p\<close> occurs in \<open>t\<close>.\<close>

definition occurrences :: "string \<Rightarrow> string \<Rightarrow> int list" where
  "occurrences t p =
     map int (filter (\<lambda>i. i + length p \<le> length t \<and> take (length p) (drop i t) = p)
                [0..<Suc (length t)])"

section \<open>Properties\<close>

subsection \<open>Forests, and the store operations that keep them\<close>

lemma forestI:
  assumes "\<And>n c k. (n, c, k) \<in> E \<Longrightarrow> n < N \<and> k < N"
    and "\<And>n c k n' c'. (n, c, k) \<in> E \<Longrightarrow> (n', c', k) \<in> E \<Longrightarrow> n = n' \<and> c = c'"
    and "\<And>n c k. (n, c, k) \<in> E \<Longrightarrow> (h :: nat \<Rightarrow> nat) k < h n"
  shows "forest E N"
  unfolding forest_def using assms by (intro conjI exI [of _ h]) blast+

lemma forestD:
  assumes "forest E N"
  shows "\<exists>h :: nat \<Rightarrow> nat.
           (\<forall>n c k. (n, c, k) \<in> E \<longrightarrow> n < N \<and> k < N) \<and>
           (\<forall>n c k n' c'. (n, c, k) \<in> E \<longrightarrow> (n', c', k) \<in> E \<longrightarrow> n = n' \<and> c = c') \<and>
           (\<forall>n c k. (n, c, k) \<in> E \<longrightarrow> h k < h n)"
proof -
  from assms obtain h :: "nat \<Rightarrow> nat" where
    b: "\<forall>(n, c, k) \<in> E. n < N \<and> k < N"
    and u: "\<forall>(n, c, k) \<in> E. \<forall>(n', c', k') \<in> E. k = k' \<longrightarrow> n = n' \<and> c = c'"
    and h: "\<forall>(n, c, k) \<in> E. h k < h n"
    unfolding forest_def by blast
  have "\<forall>n c k. (n, c, k) \<in> E \<longrightarrow> n < N \<and> k < N" using b by blast
  moreover have "\<forall>n c k n' c'. (n, c, k) \<in> E \<longrightarrow> (n', c', k) \<in> E \<longrightarrow> n = n' \<and> c = c'"
    using u by blast
  moreover have "\<forall>n c k. (n, c, k) \<in> E \<longrightarrow> h k < h n" using h by blast
  ultimately show ?thesis by blast
qed

lemma forest_mono:
  assumes "forest E N" and "E' \<subseteq> E"
  shows "forest E' N"
proof -
  from forestD [OF assms(1)] obtain h :: "nat \<Rightarrow> nat" where
    H: "(\<forall>n c k. (n, c, k) \<in> E \<longrightarrow> n < N \<and> k < N) \<and>
        (\<forall>n c k n' c'. (n, c, k) \<in> E \<longrightarrow> (n', c', k) \<in> E \<longrightarrow> n = n' \<and> c = c') \<and>
        (\<forall>n c k. (n, c, k) \<in> E \<longrightarrow> h k < h n)"
    by blast
  have b: "\<And>n c k. (n, c, k) \<in> E \<Longrightarrow> n < N \<and> k < N"
    and u: "\<And>n c k n' c'. (n, c, k) \<in> E \<Longrightarrow> (n', c', k) \<in> E \<Longrightarrow> n = n' \<and> c = c'"
    and h: "\<And>n c k. (n, c, k) \<in> E \<Longrightarrow> h k < h n"
    using H by blast+
  show ?thesis
  proof (rule forestI [where h = h])
    show "\<And>n c k. (n, c, k) \<in> E' \<Longrightarrow> n < N \<and> k < N" using b assms(2) by blast
    show "\<And>n c k n' c'. (n, c, k) \<in> E' \<Longrightarrow> (n', c', k) \<in> E' \<Longrightarrow> n = n' \<and> c = c'"
      using u assms(2) by blast
    show "\<And>n c k. (n, c, k) \<in> E' \<Longrightarrow> h k < h n" using h assms(2) by blast
  qed
qed

lemma forest_grow: "forest E N \<Longrightarrow> N \<le> N' \<Longrightarrow> forest E N'"
  unfolding forest_def by fastforce

lemma forest_add_leaf:
  assumes "forest E N" and "a < N"
  shows "forest (insert (a, c, N) E) (Suc N)"
proof -
  from forestD [OF assms(1)] obtain h :: "nat \<Rightarrow> nat" where
    H: "(\<forall>n c k. (n, c, k) \<in> E \<longrightarrow> n < N \<and> k < N) \<and>
        (\<forall>n c k n' c'. (n, c, k) \<in> E \<longrightarrow> (n', c', k) \<in> E \<longrightarrow> n = n' \<and> c = c') \<and>
        (\<forall>n c k. (n, c, k) \<in> E \<longrightarrow> h k < h n)"
    by blast
  have b: "\<And>n c k. (n, c, k) \<in> E \<Longrightarrow> n < N \<and> k < N"
    and u: "\<And>n c k n' c'. (n, c, k) \<in> E \<Longrightarrow> (n', c', k) \<in> E \<Longrightarrow> n = n' \<and> c = c'"
    and h: "\<And>n c k. (n, c, k) \<in> E \<Longrightarrow> h k < h n"
    using H by blast+
  define h' where "h' = (\<lambda>x. if x = N then 0 else Suc (h x))"
  show ?thesis
  proof (rule forestI [where h = h'])
    fix n c' k assume "(n, c', k) \<in> insert (a, c, N) E"
    then show "n < Suc N \<and> k < Suc N" using b assms(2) by (auto dest: b)
  next
    fix n c1 k n' c2
    assume 1: "(n, c1, k) \<in> insert (a, c, N) E" and 2: "(n', c2, k) \<in> insert (a, c, N) E"
    show "n = n' \<and> c1 = c2"
    proof (cases "k = N")
      case True
      have "(n, c1, k) \<notin> E" "(n', c2, k) \<notin> E" using b [of n c1 k] b [of n' c2 k] True by auto
      with 1 2 show ?thesis by simp
    next
      case False
      with 1 2 have "(n, c1, k) \<in> E" "(n', c2, k) \<in> E" by auto
      then show ?thesis by (rule u)
    qed
  next
    fix n c' k assume "(n, c', k) \<in> insert (a, c, N) E"
    then consider "n = a" "k = N" | "(n, c', k) \<in> E" by auto
    then show "h' k < h' n"
    proof cases
      case 1 with assms(2) show ?thesis by (simp add: h'_def)
    next
      case 2
      from b [OF 2] h [OF 2] show ?thesis by (simp add: h'_def)
    qed
  qed
qed

lemma forest_split:
  assumes "forest E N" and "(a, c0, nx) \<in> E"
  shows "forest (insert (a, c0, N) (insert (N, tp, Suc N) (insert (N, c, nx) (E - {(a, c0, nx)}))))
           (Suc (Suc N))"
proof -
  from forestD [OF assms(1)] obtain h :: "nat \<Rightarrow> nat" where
    H: "(\<forall>n c k. (n, c, k) \<in> E \<longrightarrow> n < N \<and> k < N) \<and>
        (\<forall>n c k n' c'. (n, c, k) \<in> E \<longrightarrow> (n', c', k) \<in> E \<longrightarrow> n = n' \<and> c = c') \<and>
        (\<forall>n c k. (n, c, k) \<in> E \<longrightarrow> h k < h n)"
    by blast
  have b: "\<And>n c k. (n, c, k) \<in> E \<Longrightarrow> n < N \<and> k < N"
    and u: "\<And>n c k n' c'. (n, c, k) \<in> E \<Longrightarrow> (n', c', k) \<in> E \<Longrightarrow> n = n' \<and> c = c'"
    and h: "\<And>n c k. (n, c, k) \<in> E \<Longrightarrow> h k < h n"
    using H by blast+
  let ?E = "insert (a, c0, N) (insert (N, tp, Suc N) (insert (N, c, nx) (E - {(a, c0, nx)})))"
  define h' where "h' = (\<lambda>x. if x = N then 2 * h nx + 3 else if x = Suc N then 0 else 2 * h x + 2)"
  from b [OF assms(2)] have an: "a < N" "nx < N" by auto
  from h [OF assms(2)] have hnx: "h nx < h a" .
  have cases: "(n = a \<and> c' = c0 \<and> k = N) \<or> (n = N \<and> c' = tp \<and> k = Suc N) \<or>
               (n = N \<and> c' = c \<and> k = nx) \<or> ((n, c', k) \<in> E \<and> (n, c', k) \<noteq> (a, c0, nx))"
    if "(n, c', k) \<in> ?E" for n c' k
    using that by auto
  have old: "k < N \<and> n < N \<and> k \<noteq> nx"
    if "(n, c', k) \<in> E" "(n, c', k) \<noteq> (a, c0, nx)" for n c' k
  proof -
    have "k \<noteq> nx"
    proof
      assume "k = nx"
      with that(1) have "(n, c', nx) \<in> E" by simp
      from u [OF this assms(2)] \<open>k = nx\<close> that(2) show False by simp
    qed
    with b [OF that(1)] show ?thesis by simp
  qed
  show ?thesis
  proof (rule forestI [where h = h'])
    fix n c' k assume "(n, c', k) \<in> ?E"
    from cases [OF this] show "n < Suc (Suc N) \<and> k < Suc (Suc N)"
      using an old by (elim disjE conjE) (simp_all, fastforce)
  next
    fix n c1 k n' c2
    assume 1: "(n, c1, k) \<in> ?E" and 2: "(n', c2, k) \<in> ?E"
    from cases [OF 1] cases [OF 2] show "n = n' \<and> c1 = c2"
    proof (elim disjE conjE)
      assume "(n, c1, k) \<in> E" "(n', c2, k) \<in> E"
      then show ?thesis by (rule u)
    qed (use an old in \<open>fastforce+\<close>)
  next
    fix n c' k assume "(n, c', k) \<in> ?E"
    from cases [OF this] show "h' k < h' n"
    proof (elim disjE conjE)
      assume "n = a" "k = N"
      with an hnx show ?thesis by (simp add: h'_def)
    next
      assume "n = N" "k = Suc N"
      then show ?thesis by (simp add: h'_def)
    next
      assume "n = N" "k = nx"
      with an show ?thesis by (simp add: h'_def)
    next
      assume e: "(n, c', k) \<in> E"
      from b [OF e] h [OF e] show ?thesis by (simp add: h'_def)
    qed
  qed
qed


lemma length_set_child [simp]: "length (set_child p c k ns) = length ns"
  by (simp add: set_child_def)

lemma length_set_suffix_link [simp]: "length (set_suffix_link p l ns) = length ns"
  by (simp add: set_suffix_link_def)

lemma length_set_start [simp]: "length (set_start p v ns) = length ns"
  by (simp add: set_start_def)

lemma length_set_index [simp]: "length (set_index p v ns) = length ns"
  by (simp add: set_index_def)

lemma children_set_suffix_link [simp]:
  "children (set_suffix_link p l ns ! n) = children (ns ! n)"
  by (cases "p < length ns"; cases "n = p") (simp_all add: set_suffix_link_def list_update_beyond not_less)

lemma children_set_start [simp]: "children (set_start p v ns ! n) = children (ns ! n)"
  by (cases "p < length ns"; cases "n = p") (simp_all add: set_start_def list_update_beyond not_less)

lemma children_set_index [simp]: "children (set_index p v ns ! n) = children (ns ! n)"
  by (cases "p < length ns"; cases "n = p") (simp_all add: set_index_def list_update_beyond not_less)

lemma children_set_child:
  "p < length ns \<Longrightarrow>
   children (set_child p c k ns ! n) =
     (if n = p then AList.update c k (children (ns ! p)) else children (ns ! n))"
  by (simp add: set_child_def)

lemma child_entries_cong:
  assumes "length ns' = length ns" and "\<And>n. n < length ns \<Longrightarrow> children (ns' ! n) = children (ns ! n)"
  shows "child_entries ns' = child_entries ns"
  using assms by (auto simp: child_entries_def)

lemma child_entries_append_leaf:
  "children x = [] \<Longrightarrow> child_entries (ns @ [x]) = child_entries ns"
  by (auto simp: child_entries_def nth_append less_Suc_eq)

lemma child_entries_set_child:
  assumes "p < length ns"
  shows "child_entries (set_child p c k ns) =
           insert (p, c, k) {(n, c', k'). (n, c', k') \<in> child_entries ns \<and> \<not> (n = p \<and> c' = c)}"
  using assms by (auto simp: child_entries_def children_set_child update_conv' split: if_splits)

lemma distinct_keys_set_child:
  assumes "\<forall>n < length ns. distinct (map fst (children (ns ! n)))" and "p < length ns"
  shows "\<forall>n < length (set_child p c k ns). distinct (map fst (children (set_child p c k ns ! n)))"
  using assms by (simp add: children_set_child distinct_update)

lemma distinct_keys_append_leaf:
  assumes "\<forall>n < length ns. distinct (map fst (children (ns ! n)))" and "children x = []"
  shows "\<forall>n < length (ns @ [x]). distinct (map fst (children ((ns @ [x]) ! n)))"
  using assms by (simp add: nth_append less_Suc_eq)

lemma tree_shaped_cong:
  assumes "length ns' = length ns" and "\<And>n. n < length ns \<Longrightarrow> children (ns' ! n) = children (ns ! n)"
  shows "tree_shaped ns' = tree_shaped ns"
  using assms child_entries_cong [OF assms] by (simp add: tree_shaped_def)

lemma tree_shaped_set_suffix_link [simp]: "tree_shaped (set_suffix_link p l ns) = tree_shaped ns"
  by (rule tree_shaped_cong) simp_all

lemma tree_shaped_set_start [simp]: "tree_shaped (set_start p v ns) = tree_shaped ns"
  by (rule tree_shaped_cong) simp_all

lemma tree_shaped_set_index [simp]: "tree_shaped (set_index p v ns) = tree_shaped ns"
  by (rule tree_shaped_cong) simp_all

lemma children_new_node [simp]: "children (new_node st en) = []"
  by (simp add: new_node_def)

lemma tree_shaped_new_leaf:
  assumes "tree_shaped ns" and "a < length ns"
  shows "tree_shaped (set_child a c (length ns) (ns @ [new_node p e]))"
proof -
  let ?ns1 = "ns @ [new_node p e]"
  from assms(1) have d: "\<forall>n < length ns. distinct (map fst (children (ns ! n)))"
    and f: "forest (child_entries ns) (length ns)"
    by (simp_all add: tree_shaped_def)
  have a1: "a < length ?ns1" using assms(2) by simp
  have d1: "\<forall>n < length ?ns1. distinct (map fst (children (?ns1 ! n)))"
    by (rule distinct_keys_append_leaf [OF d]) simp
  have "child_entries (set_child a c (length ns) ?ns1)
          \<subseteq> insert (a, c, length ns) (child_entries ns)"
    by (auto simp: child_entries_set_child [OF a1] child_entries_append_leaf)
  with forest_add_leaf [OF f assms(2)]
  have "forest (child_entries (set_child a c (length ns) ?ns1)) (Suc (length ns))"
    by (rule forest_mono)
  with distinct_keys_set_child [OF d1 a1] show ?thesis
    by (simp add: tree_shaped_def)
qed

lemma tree_shaped_split:
  assumes "tree_shaped ns" and "a < length ns" and "map_of (children (ns ! a)) c0 = Some nx"
  shows "tree_shaped
           (set_child (length ns) c nx
              (set_start nx v
                 (set_child (length ns) tp (Suc (length ns))
                    (set_child a c0 (length ns) (ns @ [new_node x y]) @ [new_node p e]))))"
proof -
  let ?N = "length ns"
  let ?ns0 = "ns @ [new_node x y]"
  let ?ns1 = "set_child a c0 ?N ?ns0"
  let ?ns1' = "?ns1 @ [new_node p e]"
  let ?ns2 = "set_child ?N tp (Suc ?N) ?ns1'"
  let ?ns3 = "set_start nx v ?ns2"
  let ?ns4 = "set_child ?N c nx ?ns3"
  from assms(1) have d: "\<forall>n < length ns. distinct (map fst (children (ns ! n)))"
    and f: "forest (child_entries ns) (length ns)"
    by (simp_all add: tree_shaped_def)
  have e: "(a, c0, nx) \<in> child_entries ns"
    using assms(2,3) by (simp add: child_entries_def)
  have a0: "a < length ?ns0" using assms(2) by simp
  have d0: "\<forall>n < length ?ns0. distinct (map fst (children (?ns0 ! n)))"
    by (rule distinct_keys_append_leaf [OF d]) simp
  have d1: "\<forall>n < length ?ns1. distinct (map fst (children (?ns1 ! n)))"
    by (rule distinct_keys_set_child [OF d0 a0])
  have d1': "\<forall>n < length ?ns1'. distinct (map fst (children (?ns1' ! n)))"
    by (rule distinct_keys_append_leaf [OF d1]) simp
  have N1: "?N < length ?ns1'" by simp
  have d2: "\<forall>n < length ?ns2. distinct (map fst (children (?ns2 ! n)))"
    by (rule distinct_keys_set_child [OF d1' N1])
  have d3: "\<forall>n < length ?ns3. distinct (map fst (children (?ns3 ! n)))"
    using d2 by simp
  have N3: "?N < length ?ns3" by simp
  have d4: "\<forall>n < length ?ns4. distinct (map fst (children (?ns4 ! n)))"
    by (rule distinct_keys_set_child [OF d3 N3])
  have "child_entries ?ns1 =
          insert (a, c0, ?N) {(n, c', k'). (n, c', k') \<in> child_entries ns \<and> \<not> (n = a \<and> c' = c0)}"
    by (simp add: child_entries_set_child [OF a0] child_entries_append_leaf)
  then have E1: "child_entries ?ns1 \<subseteq> insert (a, c0, ?N) (child_entries ns - {(a, c0, nx)})"
    by auto
  have E2: "child_entries ?ns2 \<subseteq> insert (?N, tp, Suc ?N) (child_entries ?ns1)"
    by (auto simp: child_entries_set_child [OF N1] child_entries_append_leaf)
  have E3: "child_entries ?ns3 = child_entries ?ns2"
    by (rule child_entries_cong) simp_all
  have E4: "child_entries ?ns4 \<subseteq> insert (?N, c, nx) (child_entries ?ns3)"
    by (auto simp: child_entries_set_child [OF N3])
  from E1 E2 E3 E4
  have "child_entries ?ns4 \<subseteq>
          insert (a, c0, ?N) (insert (?N, tp, Suc ?N) (insert (?N, c, nx)
            (child_entries ns - {(a, c0, nx)})))"
    by blast
  with forest_split [OF f e]
  have "forest (child_entries ?ns4) (Suc (Suc ?N))" by (rule forest_mono)
  with d4 show ?thesis by (simp add: tree_shaped_def)
qed


lemma suffix_link_set_child [simp]: "suffix_link (set_child p c k ns ! n) = suffix_link (ns ! n)"
  by (cases "p < length ns"; cases "n = p") (simp_all add: set_child_def list_update_beyond not_less)

lemma suffix_link_set_start [simp]: "suffix_link (set_start p v ns ! n) = suffix_link (ns ! n)"
  by (cases "p < length ns"; cases "n = p") (simp_all add: set_start_def list_update_beyond not_less)

lemma suffix_link_set_suffix_link:
  "suffix_link (set_suffix_link p l ns ! n) =
     (if n = p \<and> p < length ns then Some l else suffix_link (ns ! n))"
  by (cases "p < length ns"; cases "n = p")
    (simp_all add: set_suffix_link_def list_update_beyond not_less)

lemma index_set_child [simp]: "index (set_child p c k ns ! n) = index (ns ! n)"
  by (cases "p < length ns"; cases "n = p") (simp_all add: set_child_def list_update_beyond not_less)

lemma index_set_start [simp]: "index (set_start p v ns ! n) = index (ns ! n)"
  by (cases "p < length ns"; cases "n = p") (simp_all add: set_start_def list_update_beyond not_less)

lemma index_set_suffix_link [simp]: "index (set_suffix_link p l ns ! n) = index (ns ! n)"
  by (cases "p < length ns"; cases "n = p")
    (simp_all add: set_suffix_link_def list_update_beyond not_less)

lemma links_ok_append: "links_ok ns \<Longrightarrow> links_ok (ns @ [new_node st en])"
  by (auto simp: links_ok_def nth_append less_Suc_eq new_node_def)

lemma links_ok_set_child [simp]: "links_ok (set_child p c k ns) = links_ok ns"
  by (simp add: links_ok_def)

lemma links_ok_set_start [simp]: "links_ok (set_start p v ns) = links_ok ns"
  by (simp add: links_ok_def)

lemma links_ok_set_suffix_link:
  "links_ok ns \<Longrightarrow> l < length ns \<Longrightarrow> links_ok (set_suffix_link p l ns)"
  by (simp add: links_ok_def suffix_link_set_suffix_link)

lemma unindexed_append: "unindexed ns \<Longrightarrow> unindexed (ns @ [new_node st en])"
  by (auto simp: unindexed_def nth_append less_Suc_eq new_node_def)

lemma unindexed_set_child [simp]: "unindexed (set_child p c k ns) = unindexed ns"
  by (simp add: unindexed_def)

lemma unindexed_set_start [simp]: "unindexed (set_start p v ns) = unindexed ns"
  by (simp add: unindexed_def)

lemma unindexed_set_suffix_link [simp]: "unindexed (set_suffix_link p l ns) = unindexed ns"
  by (simp add: unindexed_def)

lemma tree_shaped_child_bound:
  assumes "tree_shaped ns" and "n < length ns" and "map_of (children (ns ! n)) c = Some k"
  shows "k < length ns"
proof -
  from assms(2,3) have "(n, c, k) \<in> child_entries ns" by (simp add: child_entries_def)
  with assms(1) show ?thesis by (auto simp: tree_shaped_def forest_def)
qed

lemma tree_inv_new_leaf:
  assumes "tree_inv s"
  shows "tree_inv (new_leaf pos c s)"
proof -
  let ?ns = "set_child (active_node s) c (length (nodes s)) (nodes s @ [new_node pos Shared])"
  from assms have ts: "tree_shaped (nodes s)" and lk: "links_ok (nodes s)"
    and ui: "unindexed (nodes s)" and an: "active_node s < length (nodes s)"
    and ln: "\<And>l. last_new_node s = Some l \<Longrightarrow> l < length (nodes s)"
    by (simp_all add: tree_inv_def)
  have 1: "tree_shaped ?ns" by (rule tree_shaped_new_leaf [OF ts an])
  have 2: "links_ok ?ns" using lk by (simp add: links_ok_append)
  have 3: "unindexed ?ns" using ui by (simp add: unindexed_append)
  show ?thesis
  proof (cases "last_new_node s")
    case None
    with 1 2 3 an show ?thesis by (simp add: new_leaf_def tree_inv_def Let_def)
  next
    case (Some l)
    have "links_ok (set_suffix_link l (active_node s) ?ns)"
      by (rule links_ok_set_suffix_link [OF 2]) (use an in simp)
    with Some 1 3 an show ?thesis by (simp add: new_leaf_def tree_inv_def Let_def)
  qed
qed

lemma tree_inv_premature_stop:
  assumes "tree_inv s"
  shows "tree_inv (premature_stop s)"
proof -
  from assms have lk: "links_ok (nodes s)" and an: "active_node s < length (nodes s)"
    by (simp_all add: tree_inv_def)
  have "links_ok (set_suffix_link l (active_node s) (nodes s))" for l
    by (rule links_ok_set_suffix_link [OF lk an])
  with assms show ?thesis
    by (auto simp: premature_stop_def tree_inv_def Let_def split: option.splits)
qed

lemma tree_inv_split_edge:
  assumes "tree_inv s" and "map_of (children (nodes s ! active_node s)) c0 = Some nx"
    and "split_edge pos c0 nx tp s = Extended s'"
  shows "tree_inv s'"
proof -
  let ?N = "length (nodes s)"
  let ?ns1 = "set_child (active_node s) c0 ?N
                (nodes s @ [new_node (start (nodes s ! nx))
                              (Fixed (start (nodes s ! nx) + active_length s - 1))])"
  let ?ns2 = "set_child ?N tp (Suc ?N) (?ns1 @ [new_node pos Shared])"
  let ?ns3 = "set_start nx (start (?ns2 ! nx) + active_length s) ?ns2"
  from assms(1) have ts: "tree_shaped (nodes s)" and lk: "links_ok (nodes s)"
    and ui: "unindexed (nodes s)" and an: "active_node s < length (nodes s)"
    and ln: "\<And>l. last_new_node s = Some l \<Longrightarrow> l < length (nodes s)"
    by (simp_all add: tree_inv_def)
  from assms(3) obtain c where
    s': "s' = s\<lparr>nodes := (case last_new_node s of
                            None \<Rightarrow> set_child ?N c nx ?ns3
                          | Some l \<Rightarrow> set_suffix_link l ?N (set_child ?N c nx ?ns3)),
               last_new_node := Some ?N\<rparr>"
    by (auto simp: split_edge_def Let_def split: sum.splits)
  let ?ns4 = "set_child ?N c nx ?ns3"
  have 1: "tree_shaped ?ns4" by (rule tree_shaped_split [OF ts an assms(2)])
  have 2: "links_ok ?ns4" using lk by (simp add: links_ok_append)
  have 3: "unindexed ?ns4" using ui by (simp add: unindexed_append)
  have 4: "links_ok (set_suffix_link l ?N ?ns4)" for l
    by (rule links_ok_set_suffix_link [OF 2]) simp
  from 1 2 3 4 an show ?thesis
    by (auto simp: s' tree_inv_def split: option.splits)
qed

lemma tree_inv_extend_once:
  assumes "tree_inv s"
  shows "case extend_once pos s of
           Skipped s' \<Rightarrow> tree_inv s' | Stopped s' \<Rightarrow> tree_inv s'
         | Extended s' \<Rightarrow> tree_inv s' | Raised e \<Rightarrow> True"
proof -
  define s1 where "s1 = (if active_length s = 0 then s\<lparr>active_edge := pos\<rparr> else s)"
  have inv1: "tree_inv s1" using assms by (simp add: s1_def tree_inv_def)
  show ?thesis
  proof (cases "subscript (tree_text s1) (active_edge s1)")
    case (Inl e)
    then show ?thesis by (simp add: extend_once_def Let_def s1_def)
  next
    case (Inr c)
    show ?thesis
    proof (cases "map_of (children (nodes s1 ! active_node s1)) c")
      case None
      with Inr tree_inv_new_leaf [OF inv1] show ?thesis
        by (simp add: extend_once_def Let_def s1_def)
    next
      case (Some nx)
      from inv1 have nx: "nx < length (nodes s1)"
        by (auto simp: tree_inv_def intro: tree_shaped_child_bound [OF _ _ Some])
      have skip: "tree_inv (s1\<lparr>active_edge := x, active_length := y, active_node := nx\<rparr>)" for x y
        using inv1 nx by (simp add: tree_inv_def)
      have split: "split_edge pos c nx b s1 = Extended s' \<Longrightarrow> tree_inv s'" for b s'
        by (rule tree_inv_split_edge [OF inv1 Some])
      have nosplit: "split_edge pos c nx b s1 \<noteq> Skipped x" "split_edge pos c nx b s1 \<noteq> Stopped x"
        for b x
        by (auto simp: split_edge_def Let_def split: sum.splits)
      have eo: "extend_once pos s =
        (let el = edge_length s1 nx
         in if active_length s1 \<ge> el
            then Skipped (s1\<lparr>active_edge := active_edge s1 + el,
                            active_length := active_length s1 - el,
                            active_node := nx\<rparr>)
            else case subscript (tree_text s1) (start (nodes s1 ! nx) + active_length s1) of
                   Inl e \<Rightarrow> Raised e
                 | Inr a \<Rightarrow>
                     (case subscript (tree_text s1) pos of
                        Inl e \<Rightarrow> Raised e
                      | Inr b \<Rightarrow>
                          if a = b then Stopped (premature_stop s1)
                          else split_edge pos c nx b s1))"
        using Inr Some unfolding extend_once_def s1_def [symmetric] Let_def by simp
      show ?thesis
        unfolding eo Let_def
        using skip tree_inv_premature_stop [OF inv1] split nosplit
        by (auto split: sum.splits outcome.splits)
    qed
  qed
qed

subsection \<open>The loop rule, and what the construction keeps true\<close>

lemma extension_loop_rule:
  assumes run: "extension_loop pos s = Some r"
    and init: "I s"
    and skip: "\<And>s s1. I s \<Longrightarrow> 0 < remaining_suffix_count s \<Longrightarrow> extend_once pos s = Skipped s1 \<Longrightarrow> I s1"
    and stop: "\<And>s s1. I s \<Longrightarrow> 0 < remaining_suffix_count s \<Longrightarrow> extend_once pos s = Stopped s1
                 \<Longrightarrow> Q (Inr s1)"
    and ext: "\<And>s s1. I s \<Longrightarrow> 0 < remaining_suffix_count s \<Longrightarrow> extend_once pos s = Extended s1
                \<Longrightarrow> I (update_active_point pos
                        (s1\<lparr>remaining_suffix_count := remaining_suffix_count s1 - 1\<rparr>))"
    and raised: "\<And>s e. I s \<Longrightarrow> 0 < remaining_suffix_count s \<Longrightarrow> extend_once pos s = Raised e
                   \<Longrightarrow> Q (Inl e)"
    and exit: "\<And>s. I s \<Longrightarrow> \<not> 0 < remaining_suffix_count s \<Longrightarrow> Q (Inr s)"
  shows "Q r"
proof -
  have gen: "p0 = pos \<longrightarrow> I s0 \<longrightarrow> Q r0" if run0: "extension_loop p0 s0 = Some r0" for p0 s0 r0
  proof (rule extension_loop.raw_induct
      [where P = "\<lambda>p s r. p = pos \<longrightarrow> I s \<longrightarrow> Q r", OF _ run0])
    fix f p s r
    assume IH: "\<And>p s r. f p s = Some r \<Longrightarrow> p = pos \<longrightarrow> I s \<longrightarrow> Q r"
      and eq: "(if 0 < remaining_suffix_count s
                then case extend_once p s of
                       Skipped s' \<Rightarrow> f p s'
                     | Stopped s' \<Rightarrow> Some (Inr s')
                     | Extended s' \<Rightarrow>
                         f p (update_active_point p
                                (s'\<lparr>remaining_suffix_count := remaining_suffix_count s' - 1\<rparr>))
                     | Raised e \<Rightarrow> Some (Inl e)
                else Some (Inr s)) = Some r"
    show "p = pos \<longrightarrow> I s \<longrightarrow> Q r"
    proof (intro impI)
      assume p: "p = pos" and Is: "I s"
      show "Q r"
      proof (cases "0 < remaining_suffix_count s")
        case False
        with eq have "r = Inr s" by simp
        with exit [OF Is False] show ?thesis by simp
      next
        case True
        show ?thesis
        proof (cases "extend_once pos s")
          case (Skipped s1)
          with eq True p have "f p s1 = Some r" by simp
          from IH [OF this] p skip [OF Is True Skipped] show ?thesis by simp
        next
          case (Stopped s1)
          with eq True p have "r = Inr s1" by simp
          with stop [OF Is True Stopped] show ?thesis by simp
        next
          case (Extended s1)
          with eq True p
          have "f p (update_active_point pos
                       (s1\<lparr>remaining_suffix_count := remaining_suffix_count s1 - 1\<rparr>)) = Some r"
            by simp
          from IH [OF this] p ext [OF Is True Extended] show ?thesis by simp
        next
          case (Raised e)
          with eq True p have "r = Inl e" by simp
          with raised [OF Is True Raised] show ?thesis by simp
        qed
      qed
    qed
  qed
  from gen [OF run] init show ?thesis by simp
qed

lemma tree_inv_update_active_point:
  assumes "tree_inv s"
  shows "tree_inv (update_active_point pos (s\<lparr>remaining_suffix_count := r\<rparr>))"
proof -
  from assms have lk: "links_ok (nodes s)" and an: "active_node s < length (nodes s)"
    by (simp_all add: tree_inv_def)
  have "(case suffix_link (nodes s ! active_node s) of Some l \<Rightarrow> l | None \<Rightarrow> root)
          < length (nodes s)"
    using lk an by (auto simp: links_ok_def root_def split: option.splits)
  with assms show ?thesis
    by (simp add: update_active_point_def tree_inv_def)
qed

lemma tree_inv_extension_loop:
  assumes "extension_loop pos s = Some (Inr s')" and "tree_inv s"
  shows "tree_inv s'"
proof -
  have "case Inr s' of Inr x \<Rightarrow> tree_inv x | Inl (e :: error) \<Rightarrow> True"
  proof (rule extension_loop_rule
      [where I = tree_inv and Q = "\<lambda>r. case r of Inr x \<Rightarrow> tree_inv x | Inl e \<Rightarrow> True",
        OF assms(1) assms(2)])
    fix s s1 :: suffix_tree
    assume i: "tree_inv s"
    {
      assume "extend_once pos s = Skipped s1"
      with tree_inv_extend_once [OF i, of pos] show "tree_inv s1" by simp
    }
    {
      assume "extend_once pos s = Stopped s1"
      with tree_inv_extend_once [OF i, of pos]
      show "case Inr s1 of Inr x \<Rightarrow> tree_inv x | Inl (e :: error) \<Rightarrow> True" by simp
    }
    {
      assume "extend_once pos s = Extended s1"
      with tree_inv_extend_once [OF i, of pos] have "tree_inv s1" by simp
      then show "tree_inv (update_active_point pos
                   (s1\<lparr>remaining_suffix_count := remaining_suffix_count s1 - 1\<rparr>))"
        by (rule tree_inv_update_active_point)
    }
    show "case Inr s of Inr x \<Rightarrow> tree_inv x | Inl (e :: error) \<Rightarrow> True" using i by simp
  qed simp
  then show ?thesis by simp
qed

lemma tree_inv_phase_header: "tree_inv s \<Longrightarrow> tree_inv (phase_header pos s)"
  by (simp add: phase_header_def tree_inv_def)

lemma tree_inv_extend_suffix_tree:
  "extend_suffix_tree pos s = Some (Inr s') \<Longrightarrow> tree_inv s \<Longrightarrow> tree_inv s'"
  unfolding extend_suffix_tree_def
  by (erule tree_inv_extension_loop) (rule tree_inv_phase_header)

lemma tree_inv_build_phases:
  "build_phases n pos s = Some (Inr s') \<Longrightarrow> tree_inv s \<Longrightarrow> tree_inv s'"
proof (induction n arbitrary: pos s)
  case 0
  then show ?case by simp
next
  case (Suc n)
  from Suc.prems(1) obtain s1 where 1: "extend_suffix_tree pos s = Some (Inr s1)"
    and 2: "build_phases n (pos + 1) s1 = Some (Inr s')"
    by (auto split: option.splits sum.splits)
  from Suc.IH [OF 2 tree_inv_extend_suffix_tree [OF 1 Suc.prems(2)]] show ?case .
qed

lemma tree_inv_init_tree: "tree_inv (init_tree t)"
proof -
  have "child_entries [(new_node (- 1) (Fixed (- 1)))\<lparr>suffix_link := Some root\<rparr>] = {}"
    by (auto simp: child_entries_def)
  then have "tree_shaped [(new_node (- 1) (Fixed (- 1)))\<lparr>suffix_link := Some root\<rparr>]"
    by (simp add: tree_shaped_def forest_def)
  then show ?thesis
    by (simp add: init_tree_def tree_inv_def links_ok_def unindexed_def root_def new_node_def)
qed

lemma tree_inv_SuffixTree: "SuffixTree t = Some (Inr s) \<Longrightarrow> tree_inv s"
  unfolding SuffixTree_def build_suffix_tree_def
  by (erule tree_inv_build_phases) (rule tree_inv_init_tree)

lemma tree_inv_make_explicit:
  assumes "make_explicit s = Some (Inr s')" and "tree_inv s"
  shows "tree_inv s'"
proof -
  let ?s2 = "s\<lparr>tree_text := tree_text s @ ''$'', tree_size := tree_size s + 1,
               leaf_end := tree_size s, leaf_end_writes := leaf_end_writes s @ [tree_size s],
               remaining_suffix_count := remaining_suffix_count s + 1, last_new_node := None\<rparr>"
  from assms(1) have "extend_suffix_tree (tree_size s) ?s2 = Some (Inr s')"
    by (simp add: make_explicit_def Let_def)
  moreover from assms(2) have "tree_inv ?s2" by (simp add: tree_inv_def)
  ultimately show ?thesis by (rule tree_inv_extend_suffix_tree)
qed

lemma tree_inv_explicit_tree:
  assumes "explicit_tree t = Some (Inr s)"
  shows "tree_inv s"
proof -
  from assms obtain s0 where 1: "SuffixTree t = Some (Inr s0)" and 2: "make_explicit s0 = Some (Inr s)"
    by (auto simp: explicit_tree_def split: option.splits sum.splits)
  from tree_inv_make_explicit [OF 2 tree_inv_SuffixTree [OF 1]] show ?thesis .
qed

subsection \<open>The loop returns\<close>

lemma update_active_point_fields:
  "nodes (update_active_point pos s) = nodes s"
  "remaining_suffix_count (update_active_point pos s) = remaining_suffix_count s"
  by (simp_all add: update_active_point_def)

lemma extend_once_Skipped:
  assumes "extend_once pos s = Skipped s'"
  shows "nodes s' = nodes s \<and> remaining_suffix_count s' = remaining_suffix_count s \<and>
         (\<exists>c. map_of (children (nodes s ! active_node s)) c = Some (active_node s'))"
  using assms
  by (auto simp: extend_once_def split_edge_def Let_def
      split: sum.splits option.splits if_splits)

lemma extend_once_remaining:
  "extend_once pos s = Extended s' \<Longrightarrow> remaining_suffix_count s' = remaining_suffix_count s"
  by (auto simp: extend_once_def new_leaf_def split_edge_def Let_def
      split: sum.splits option.splits if_splits)

lemma extension_loop_returns:
  assumes "tree_inv s"
  shows "\<exists>r. extension_loop pos s = Some r"
  using assms
proof (induction "nat (remaining_suffix_count s)" arbitrary: s rule: less_induct)
  case less
  note outer = less.hyps and inv = less.prems
  from inv have "forest (child_entries (nodes s)) (length (nodes s))"
    by (simp add: tree_inv_def tree_shaped_def)
  from forestD [OF this] obtain h :: "nat \<Rightarrow> nat" where
    h: "\<And>n c k. (n, c, k) \<in> child_entries (nodes s) \<Longrightarrow> h k < h n"
    by blast
  have inner: "\<exists>r. extension_loop pos s2 = Some r"
    if "tree_inv s2" and "nodes s2 = nodes s"
      and "remaining_suffix_count s2 = remaining_suffix_count s" for s2
    using that
  proof (induction "h (active_node s2)" arbitrary: s2 rule: less_induct)
    case less
    note i2 = less.prems(1) and n2 = less.prems(2) and r2 = less.prems(3)
    show ?case
    proof (cases "0 < remaining_suffix_count s2")
      case False
      then show ?thesis by (subst extension_loop.simps) simp
    next
      case True
      show ?thesis
      proof (cases "extend_once pos s2")
        case (Skipped s3)
        from tree_inv_extend_once [OF i2, of pos] Skipped have i3: "tree_inv s3" by simp
        from extend_once_Skipped [OF Skipped] obtain c where
          n3: "nodes s3 = nodes s2" and r3: "remaining_suffix_count s3 = remaining_suffix_count s2"
          and c: "map_of (children (nodes s2 ! active_node s2)) c = Some (active_node s3)"
          by blast
        from i2 have "active_node s2 < length (nodes s2)" by (simp add: tree_inv_def)
        with c n2 have "(active_node s2, c, active_node s3) \<in> child_entries (nodes s)"
          by (simp add: child_entries_def)
        from h [OF this] have "h (active_node s3) < h (active_node s2)" .
        from less.hyps [OF this i3] n3 r3 n2 r2 obtain r where "extension_loop pos s3 = Some r"
          by auto
        with True Skipped show ?thesis by (subst extension_loop.simps) simp
      next
        case (Stopped s3)
        with True show ?thesis by (subst extension_loop.simps) simp
      next
        case (Extended s3)
        let ?s4 = "update_active_point pos
                     (s3\<lparr>remaining_suffix_count := remaining_suffix_count s3 - 1\<rparr>)"
        from tree_inv_extend_once [OF i2, of pos] Extended have "tree_inv s3" by simp
        then have i4: "tree_inv ?s4" by (rule tree_inv_update_active_point)
        have "remaining_suffix_count ?s4 = remaining_suffix_count s - 1"
          using extend_once_remaining [OF Extended] r2 by (simp add: update_active_point_fields)
        with True r2 have "nat (remaining_suffix_count ?s4) < nat (remaining_suffix_count s)"
          by simp
        from outer [OF this i4] obtain r where "extension_loop pos ?s4 = Some r" by blast
        with True Extended show ?thesis by (subst extension_loop.simps) simp
      next
        case (Raised e)
        with True show ?thesis by (subst extension_loop.simps) simp
      qed
    qed
  qed
  from inner [OF inv] show ?case by simp
qed

subsection \<open>The active point after an extension\<close>

text \<open>
  C7. From a state of the construction (one that satisfies \<open>tree_inv\<close>) in which a pass of
  the loop body reaches line 103 (a new leaf or a split), the loop returns, and it returns
  what it returns from the state in which \<^verbatim>\<open>remaining_suffix_count\<close> is decremented and
  the active point is updated by these rules and nothing else: at the root with a positive
  active length, the length is decremented and the active edge is the position
  \<open>pos - remaining_suffix_count + 1\<close>; at another node, the active node becomes its suffix
  link, or the root when it has none, and the active edge and length stay; at the root with
  active length 0 nothing changes.
\<close>

theorem active_point_update:
  assumes "tree_inv s" and "0 < remaining_suffix_count s" and "extend_once pos s = Extended s1"
  shows "(\<exists>r. extension_loop pos s = Some r \<and>
              extension_loop pos
                (update_active_point pos
                   (s1\<lparr>remaining_suffix_count := remaining_suffix_count s1 - 1\<rparr>)) = Some r)
         \<and> (let s2 = s1\<lparr>remaining_suffix_count := remaining_suffix_count s1 - 1\<rparr>;
                 s3 = update_active_point pos s2
             in (active_node s2 = root \<and> 0 < active_length s2 \<longrightarrow>
                   active_length s3 = active_length s2 - 1 \<and>
                   active_edge s3 = pos - remaining_suffix_count s2 + 1 \<and>
                   active_node s3 = root) \<and>
                (active_node s2 \<noteq> root \<longrightarrow>
                   active_node s3 =
                     (case suffix_link (nodes s2 ! active_node s2) of Some l \<Rightarrow> l | None \<Rightarrow> root) \<and>
                   active_edge s3 = active_edge s2 \<and> active_length s3 = active_length s2) \<and>
                (active_node s2 = root \<and> \<not> 0 < active_length s2 \<longrightarrow> s3 = s2) \<and>
                s3\<lparr>active_node := active_node s2, active_edge := active_edge s2,
                   active_length := active_length s2\<rparr> = s2)"
proof -
  have e: "extension_loop pos s =
           extension_loop pos
             (update_active_point pos (s1\<lparr>remaining_suffix_count := remaining_suffix_count s1 - 1\<rparr>))"
    using assms(2,3) by (subst extension_loop.simps) simp
  from extension_loop_returns [OF assms(1)] obtain r where r: "extension_loop pos s = Some r" by blast
  from r have "extension_loop pos
                (update_active_point pos
                   (s1\<lparr>remaining_suffix_count := remaining_suffix_count s1 - 1\<rparr>)) = Some r"
    unfolding e .
  with r have "\<exists>r. extension_loop pos s = Some r \<and>
              extension_loop pos
                (update_active_point pos
                   (s1\<lparr>remaining_suffix_count := remaining_suffix_count s1 - 1\<rparr>)) = Some r"
    by blast
  moreover have "active_node s2 = root \<and> 0 < active_length s2 \<longrightarrow>
                   active_length (update_active_point pos s2) = active_length s2 - 1 \<and>
                   active_edge (update_active_point pos s2) = pos - remaining_suffix_count s2 + 1 \<and>
                   active_node (update_active_point pos s2) = root" for s2
    by (simp add: update_active_point_def)
  moreover have "active_node s2 \<noteq> root \<longrightarrow>
                   active_node (update_active_point pos s2) =
                     (case suffix_link (nodes s2 ! active_node s2) of Some l \<Rightarrow> l | None \<Rightarrow> root) \<and>
                   active_edge (update_active_point pos s2) = active_edge s2 \<and>
                   active_length (update_active_point pos s2) = active_length s2" for s2
    by (simp add: update_active_point_def)
  moreover have "active_node s2 = root \<and> \<not> 0 < active_length s2 \<longrightarrow> update_active_point pos s2 = s2" for s2
    by (simp add: update_active_point_def)
  moreover have "(update_active_point pos s2)\<lparr>active_node := active_node s2, active_edge := active_edge s2,
                   active_length := active_length s2\<rparr> = s2" for s2
    by (simp add: update_active_point_def)
  ultimately show ?thesis unfolding Let_def by blast
qed

theorem active_point_update_witness:
  "(let s = phase_header 2 (projr (the (build_phases (nat 2) 0 (init_tree ''aab''))));
        s1 = (case extend_once 2 s of Extended x \<Rightarrow> x | _ \<Rightarrow> s);
        s3 = update_active_point 2 (s1\<lparr>remaining_suffix_count := remaining_suffix_count s1 - 1\<rparr>)
    in tree_inv s \<and> 0 < remaining_suffix_count s \<and> extend_once 2 s = Extended s1 \<and>
       active_node s1 = root \<and> active_length s1 = 1 \<and> remaining_suffix_count s1 = 2 \<and>
       active_node s3 = root \<and> active_length s3 = 0 \<and> active_edge s3 = 2 \<and>
       (\<exists>r. extension_loop 2 s = Some r \<and> extension_loop 2 s3 = Some r)) \<and>
   (let s = phase_header 7 (projr (the (build_phases (nat 7) 0 (init_tree ''aaabaaaa''))));
        s1 = (case extend_once 7 s of Extended x \<Rightarrow> x | _ \<Rightarrow> s);
        s3 = update_active_point 7 (s1\<lparr>remaining_suffix_count := remaining_suffix_count s1 - 1\<rparr>)
    in tree_inv s \<and> 0 < remaining_suffix_count s \<and> extend_once 7 s = Extended s1 \<and>
       active_node s1 = 2 \<and> suffix_link (nodes s1 ! 2) = Some 4 \<and>
       active_node s3 = 4 \<and> active_edge s3 = active_edge s1 \<and> active_length s3 = active_length s1 \<and>
       (\<exists>r. extension_loop 7 s = Some r \<and> extension_loop 7 s3 = Some r))"
proof -
  define ua where "ua = projr (the (build_phases (nat 2) 0 (init_tree ''aab'')))"
  define sa where "sa = phase_header 2 ua"
  define ta where "ta = (case extend_once 2 sa of Extended x \<Rightarrow> x | _ \<Rightarrow> sa)"
  define va where
    "va = update_active_point 2 (ta\<lparr>remaining_suffix_count := remaining_suffix_count ta - 1\<rparr>)"
  have ab: "build_phases (nat 2) 0 (init_tree ''aab'') = Some (Inr ua)"
    unfolding ua_def by code_simp
  have ai: "tree_inv sa"
    unfolding sa_def
    by (rule tree_inv_phase_header [OF tree_inv_build_phases [OF ab tree_inv_init_tree]])
  have ar: "0 < remaining_suffix_count sa" unfolding sa_def ua_def by code_simp
  have ae: "extend_once 2 sa = Extended ta" unfolding ta_def sa_def ua_def by code_simp
  have an: "active_node ta = root" unfolding ta_def sa_def ua_def by code_simp
  have al: "active_length ta = 1" unfolding ta_def sa_def ua_def by code_simp
  have am: "remaining_suffix_count ta = 2" unfolding ta_def sa_def ua_def by code_simp
  note A = active_point_update [OF ai ar ae]
  from A have a3: "active_node va = root \<and> active_length va = 0 \<and> active_edge va = 2"
    unfolding Let_def va_def by (simp add: an al am)
  from A have ax: "\<exists>r. extension_loop 2 sa = Some r \<and> extension_loop 2 va = Some r"
    unfolding va_def by blast
  define ub where "ub = projr (the (build_phases (nat 7) 0 (init_tree ''aaabaaaa'')))"
  define sb where "sb = phase_header 7 ub"
  define tb where "tb = (case extend_once 7 sb of Extended x \<Rightarrow> x | _ \<Rightarrow> sb)"
  define vb where
    "vb = update_active_point 7 (tb\<lparr>remaining_suffix_count := remaining_suffix_count tb - 1\<rparr>)"
  have bb: "build_phases (nat 7) 0 (init_tree ''aaabaaaa'') = Some (Inr ub)"
    unfolding ub_def by code_simp
  have bi: "tree_inv sb"
    unfolding sb_def
    by (rule tree_inv_phase_header [OF tree_inv_build_phases [OF bb tree_inv_init_tree]])
  have br: "0 < remaining_suffix_count sb" unfolding sb_def ub_def by code_simp
  have be: "extend_once 7 sb = Extended tb" unfolding tb_def sb_def ub_def by code_simp
  have bn: "active_node tb = 2" unfolding tb_def sb_def ub_def by code_simp
  have bl: "suffix_link (nodes tb ! 2) = Some 4" unfolding tb_def sb_def ub_def by code_simp
  note B = active_point_update [OF bi br be]
  from B have b3: "active_node vb = 4 \<and> active_edge vb = active_edge tb \<and>
                   active_length vb = active_length tb"
    unfolding Let_def vb_def by (simp add: bn bl root_def)
  from B have bx: "\<exists>r. extension_loop 7 sb = Some r \<and> extension_loop 7 vb = Some r"
    unfolding vb_def by blast
  from ai ar ae an al am a3 ax bi br be bn bl b3 bx show ?thesis
    unfolding Let_def va_def vb_def ta_def tb_def sa_def sb_def ua_def ub_def by blast
qed

subsection \<open>Finalization\<close>

lemma make_explicit_unfold:
  "make_explicit s =
     extension_loop (tree_size s)
       (s\<lparr>tree_text := tree_text s @ ''$'', tree_size := tree_size s + 1,
          leaf_end := tree_size s,
          leaf_end_writes := leaf_end_writes s @ [tree_size s, tree_size s],
          remaining_suffix_count := remaining_suffix_count s + 2,
          last_new_node := None\<rparr>)"
  by (simp add: make_explicit_def extend_suffix_tree_def phase_header_def Let_def add.commute)

lemma finalize_spec_unfold:
  "finalize_spec s =
     extension_loop (tree_size s)
       (s\<lparr>tree_text := tree_text s @ ''$'', tree_size := tree_size s + 1,
          leaf_end := tree_size s,
          leaf_end_writes := leaf_end_writes s @ [tree_size s],
          remaining_suffix_count := remaining_suffix_count s + 1,
          last_new_node := None\<rparr>)"
  by (simp add: finalize_spec_def extend_suffix_tree_def phase_header_def)

text \<open>
  C4. Finalization is claimed to be the append of the terminator followed by exactly one
  phase. \<^verbatim>\<open>make_explicit\<close> runs the phase header itself and then calls
  \<^verbatim>\<open>_extend_suffix_tree\<close>, which runs it again, so \<^verbatim>\<open>remaining_suffix_count\<close> is
  incremented twice. On the implicit tree of \<open>abab\<close> the result differs from the phase of
  the specification: one pending suffix is counted too many, and the tree is another one.
\<close>

theorem make_explicit_is_not_one_phase:
  "explicit_tree ''abab'' \<noteq> finalized_by_spec ''abab'' \<and>
   map_option (map_sum id remaining_suffix_count) (explicit_tree ''abab'') = Some (Inr 1) \<and>
   map_option (map_sum id remaining_suffix_count) (finalized_by_spec ''abab'') = Some (Inr 0) \<and>
   map_option (map_sum id leaf_strings_of) (finalized_by_spec ''abab'') =
     Some (Inr [''ab$'', ''abab$'', ''b$'', ''bab$'', ''$''])"
  by code_simp

text \<open>
  C9. The history of the writes to \<^verbatim>\<open>leaf_end[0]\<close> for the input \<open>a\<close>: one write in
  the construction phase of position 0, and two writes of the position 1 in the finalization
  phase (line 119 of \<^verbatim>\<open>make_explicit\<close>, then line 57).
\<close>

theorem leaf_end_written_twice_by_make_explicit:
  "map_option (map_sum id leaf_end_writes) (explicit_tree ''a'') = Some (Inr [0, 1, 1])"
  by code_simp

text \<open>
  C3. The strings read from the root to the leaves of the finalized tree of \<open>abab\<close>:
  \<open>a$\<close> is no suffix of \<open>abab$\<close>, and the suffix \<open>b$\<close> has no leaf.
\<close>

theorem leaf_strings_abab:
  "explicit_leaf_strings ''abab'' = Some (Inr [''a$'', ''ab$'', ''abab$'', ''bab$'', ''$'']) \<and>
   suffixes_of ''abab$'' = [''abab$'', ''bab$'', ''ab$'', ''b$'', ''$'']"
  by code_simp

text \<open>
  C1. On the finalized and indexed tree of \<open>abab\<close>, the query for \<open>a\<close> returns the index 3,
  where \<open>a\<close> does not occur, and the query for \<open>b\<close> misses the occurrence at 3.
\<close>

theorem find_all_abab:
  "find_all_in ''abab'' ''a'' = Some [3, 2, 0] \<and> occurrences ''abab'' ''a'' = [0, 2] \<and>
   find_all_in ''abab'' ''b'' = Some [1] \<and> occurrences ''abab'' ''b'' = [1, 3]"
  by code_simp

text \<open>
  C5, as claimed: an input that holds the terminator makes finalization fail and leaves the
  tree unchanged. For the input \<open>$\<close>, \<^verbatim>\<open>make_explicit\<close> returns normally, with the text
  \<open>$$\<close> and the size 2.
\<close>

theorem make_explicit_no_terminator_check_counterexample:
  "\<not> Option.is_none (explicit_tree ''$'') \<and> \<not> isl (the (explicit_tree ''$'')) \<and>
   tree_text (projr (the (explicit_tree ''$''))) = ''$$'' \<and>
   tree_size (projr (the (explicit_tree ''$''))) = 2"
  by code_simp

subsection \<open>What finalization does to the text\<close>

lemma extend_once_text:
  "extend_once pos s = Skipped s' \<Longrightarrow> tree_text s' = tree_text s \<and> tree_size s' = tree_size s"
  "extend_once pos s = Stopped s' \<Longrightarrow> tree_text s' = tree_text s \<and> tree_size s' = tree_size s"
  "extend_once pos s = Extended s' \<Longrightarrow> tree_text s' = tree_text s \<and> tree_size s' = tree_size s"
  by (auto simp: extend_once_def new_leaf_def premature_stop_def split_edge_def Let_def
      split: sum.splits option.splits if_splits)

lemma update_active_point_text [simp]:
  "tree_text (update_active_point pos s) = tree_text s"
  "tree_size (update_active_point pos s) = tree_size s"
  by (simp_all add: update_active_point_def)

lemma extension_loop_text:
  assumes "extension_loop pos s = Some (Inr s')"
  shows "tree_text s' = tree_text s \<and> tree_size s' = tree_size s"
proof -
  let ?I = "\<lambda>x. tree_text x = tree_text s \<and> tree_size x = tree_size s"
  have "case Inr s' of Inr x \<Rightarrow> ?I x | Inl (e :: error) \<Rightarrow> True"
    by (rule extension_loop_rule
        [where I = ?I and Q = "\<lambda>r. case r of Inr x \<Rightarrow> ?I x | Inl e \<Rightarrow> True", OF assms])
      (auto dest: extend_once_text)
  then show ?thesis by simp
qed

lemma leaf_end_new_leaf [simp]: "leaf_end (new_leaf pos c s) = leaf_end s"
  by (simp add: new_leaf_def Let_def split: option.splits)

lemma leaf_end_premature_stop [simp]: "leaf_end (premature_stop s) = leaf_end s"
  by (simp add: premature_stop_def Let_def split: option.splits)

lemma leaf_end_split_edge: "split_edge pos c nx tp s = Extended s' \<Longrightarrow> leaf_end s' = leaf_end s"
  by (auto simp: split_edge_def Let_def split: sum.splits)

lemma leaf_end_update_active_point [simp]: "leaf_end (update_active_point pos s) = leaf_end s"
  by (simp add: update_active_point_def)

lemma extend_once_leaf_end:
  "extend_once pos s = Skipped s' \<Longrightarrow> leaf_end s' = leaf_end s"
  "extend_once pos s = Stopped s' \<Longrightarrow> leaf_end s' = leaf_end s"
  "extend_once pos s = Extended s' \<Longrightarrow> leaf_end s' = leaf_end s"
  by (auto simp: extend_once_def new_leaf_def premature_stop_def split_edge_def Let_def
      split: sum.splits option.splits if_splits)

lemma extension_loop_leaf_end:
  assumes "extension_loop pos s = Some (Inr s')"
  shows "leaf_end s' = leaf_end s"
proof -
  let ?I = "\<lambda>x. leaf_end x = leaf_end s"
  have "case Inr s' of Inr x \<Rightarrow> ?I x | Inl (e :: error) \<Rightarrow> True"
    by (rule extension_loop_rule
        [where I = ?I and Q = "\<lambda>r. case r of Inr x \<Rightarrow> ?I x | Inl e \<Rightarrow> True", OF assms])
      (auto dest: extend_once_leaf_end)
  then show ?thesis by simp
qed

lemma build_phases_text:
  "build_phases n pos s = Some (Inr s') \<Longrightarrow> tree_text s' = tree_text s \<and> tree_size s' = tree_size s"
proof (induction n arbitrary: pos s)
  case 0
  then show ?case by simp
next
  case (Suc n)
  from Suc.prems obtain s1 where 1: "extend_suffix_tree pos s = Some (Inr s1)"
    and 2: "build_phases n (pos + 1) s1 = Some (Inr s')"
    by (auto split: option.splits sum.splits)
  from 1 extension_loop_text [of pos "phase_header pos s" s1]
  have "tree_text s1 = tree_text s \<and> tree_size s1 = tree_size s"
    by (simp add: extend_suffix_tree_def phase_header_def)
  with Suc.IH [OF 2] show ?case by simp
qed

lemma SuffixTree_text:
  assumes "SuffixTree t = Some (Inr s)"
  shows "tree_text s = t \<and> tree_size s = int (length t)"
  using assms build_phases_text [of _ 0 "init_tree t" s]
  by (simp add: SuffixTree_def build_suffix_tree_def init_tree_def)

text \<open>
  C5, as the code has it: \<^verbatim>\<open>make_explicit\<close> makes no test of the text and has no error for
  a terminator. On the tree built from any text \<open>t\<close>, with the terminator in it or not, the
  call returns: it raises the IndexError of a subscript or it returns a tree, and the tree it
  returns is not the one it was given: the text is \<open>t\<close> with one \<open>$\<close> appended, the size is
  one more, and the leaf end is the position of the appended symbol.
\<close>

theorem make_explicit_appends_terminator:
  assumes "SuffixTree t = Some (Inr s)"
  shows "\<exists>r. make_explicit s = Some r \<and>
           (\<forall>s'. r = Inr s' \<longrightarrow>
              tree_text s' = t @ ''$'' \<and> tree_size s' = int (length t) + 1 \<and>
              leaf_end s' = int (length t) \<and> s' \<noteq> s)"
proof -
  let ?s2 = "s\<lparr>tree_text := tree_text s @ ''$'', tree_size := tree_size s + 1,
               leaf_end := tree_size s,
               leaf_end_writes := leaf_end_writes s @ [tree_size s, tree_size s],
               remaining_suffix_count := remaining_suffix_count s + 2,
               last_new_node := None\<rparr>"
  have m: "make_explicit s = extension_loop (tree_size s) ?s2" by (rule make_explicit_unfold)
  from SuffixTree_text [OF assms] have tx: "tree_text s = t" and sz: "tree_size s = int (length t)"
    by simp_all
  from tree_inv_SuffixTree [OF assms] have "tree_inv ?s2" by (simp add: tree_inv_def)
  from extension_loop_returns [OF this] obtain r where r: "extension_loop (tree_size s) ?s2 = Some r"
    by blast
  have "tree_text s' = t @ ''$'' \<and> tree_size s' = int (length t) + 1 \<and>
        leaf_end s' = int (length t) \<and> s' \<noteq> s" if "r = Inr s'" for s'
  proof -
    from r that have l: "extension_loop (tree_size s) ?s2 = Some (Inr s')" by simp
    from extension_loop_text [OF l] extension_loop_leaf_end [OF l] tx sz
    have a: "tree_text s' = t @ ''$''" "tree_size s' = int (length t) + 1"
      "leaf_end s' = int (length t)" by simp_all
    from a(1) tx have "s' \<noteq> s" by auto
    with a show ?thesis by simp
  qed
  with m r show ?thesis by simp
qed

theorem make_explicit_appends_terminator_witness:
  "SuffixTree ''$'' = Some (Inr (projr (the (SuffixTree ''$'')))) \<and>
   CHR ''$'' \<in> set ''$'' \<and>
   make_explicit (projr (the (SuffixTree ''$''))) =
     Some (Inr (projr (the (make_explicit (projr (the (SuffixTree ''$''))))))) \<and>
   tree_text (projr (the (make_explicit (projr (the (SuffixTree ''$'')))))) = ''$'' @ ''$'' \<and>
   tree_size (projr (the (make_explicit (projr (the (SuffixTree ''$'')))))) = 2 \<and>
   leaf_end (projr (the (make_explicit (projr (the (SuffixTree ''$'')))))) = 1 \<and>
   projr (the (make_explicit (projr (the (SuffixTree ''$''))))) \<noteq> projr (the (SuffixTree ''$''))"
proof -
  let ?S = "projr (the (SuffixTree ''$''))"
  let ?S' = "projr (the (make_explicit ?S))"
  have h: "SuffixTree ''$'' = Some (Inr ?S)" by code_simp
  have m: "make_explicit ?S = Some (Inr ?S')" by code_simp
  from make_explicit_appends_terminator [OF h] m
  have "tree_text ?S' = ''$'' @ ''$'' \<and> tree_size ?S' = int (length ''$'') + 1 \<and>
        leaf_end ?S' = int (length ''$'') \<and> ?S' \<noteq> ?S"
    by auto
  with h m show ?thesis by simp
qed

subsection \<open>The frame of the traversal that assigns suffix indices\<close>

lemma only_leaf_indices_changed_refl: "only_leaf_indices_changed s s"
  by (simp add: only_leaf_indices_changed_def)

lemma only_leaf_indices_changed_trans:
  assumes 1: "only_leaf_indices_changed s s'" and 2: "only_leaf_indices_changed s' s''"
  shows "only_leaf_indices_changed s s''"
proof -
  from 1 have a: "s'\<lparr>nodes := nodes s\<rparr> = s" and la: "length (nodes s') = length (nodes s)"
    and na: "\<And>n. n < length (nodes s) \<Longrightarrow> (nodes s' ! n)\<lparr>index := index (nodes s ! n)\<rparr> = nodes s ! n"
    and ca: "\<And>n. n < length (nodes s) \<Longrightarrow> children (nodes s ! n) \<noteq> [] \<Longrightarrow> nodes s' ! n = nodes s ! n"
    by (simp_all add: only_leaf_indices_changed_def)
  from 2 have b: "s''\<lparr>nodes := nodes s'\<rparr> = s'" and lb: "length (nodes s'') = length (nodes s')"
    and nb: "\<And>n. n < length (nodes s') \<Longrightarrow> (nodes s'' ! n)\<lparr>index := index (nodes s' ! n)\<rparr> = nodes s' ! n"
    and cb: "\<And>n. n < length (nodes s') \<Longrightarrow> children (nodes s' ! n) \<noteq> [] \<Longrightarrow> nodes s'' ! n = nodes s' ! n"
    by (simp_all add: only_leaf_indices_changed_def)
  have "s''\<lparr>nodes := nodes s\<rparr> = (s''\<lparr>nodes := nodes s'\<rparr>)\<lparr>nodes := nodes s\<rparr>" by simp
  also have "\<dots> = s" by (simp only: a b)
  finally have A: "s''\<lparr>nodes := nodes s\<rparr> = s" .
  have B: "length (nodes s'') = length (nodes s)" using la lb by simp
  have C: "(nodes s'' ! n)\<lparr>index := index (nodes s ! n)\<rparr> = nodes s ! n" if n: "n < length (nodes s)" for n
  proof -
    have "(nodes s'' ! n)\<lparr>index := index (nodes s ! n)\<rparr>
            = ((nodes s'' ! n)\<lparr>index := index (nodes s' ! n)\<rparr>)\<lparr>index := index (nodes s ! n)\<rparr>"
      by simp
    also have "\<dots> = (nodes s' ! n)\<lparr>index := index (nodes s ! n)\<rparr>" using nb [of n] n la by simp
    also have "\<dots> = nodes s ! n" using na [OF n] .
    finally show ?thesis .
  qed
  have D: "nodes s'' ! n = nodes s ! n" if n: "n < length (nodes s)" and c: "children (nodes s ! n) \<noteq> []" for n
  proof -
    have e: "nodes s' ! n = nodes s ! n" using ca [OF n c] .
    with c have "children (nodes s' ! n) \<noteq> []" by simp
    with cb [of n] n la have "nodes s'' ! n = nodes s' ! n" by simp
    with e show ?thesis by simp
  qed
  from A B C D show ?thesis unfolding only_leaf_indices_changed_def by blast
qed

lemma only_leaf_indices_changed_set_index:
  assumes "length (children (nodes s ! n)) = 0"
  shows "only_leaf_indices_changed s (s\<lparr>nodes := set_index n v (nodes s)\<rparr>)"
proof -
  from assms have c: "children (nodes s ! n) = []" by simp
  have "((nodes s)[n := (nodes s ! n)\<lparr>index := v\<rparr>] ! m)\<lparr>index := index (nodes s ! m)\<rparr> = nodes s ! m"
    if "m < length (nodes s)" for m
    using that by (cases "m = n") simp_all
  moreover have "(nodes s)[n := (nodes s ! n)\<lparr>index := v\<rparr>] ! m = nodes s ! m"
    if "m < length (nodes s)" and "children (nodes s ! m) \<noteq> []" for m
    using that c by (cases "m = n") simp_all
  ultimately show ?thesis
    by (simp add: only_leaf_indices_changed_def set_index_def)
qed

lemma dfs_frame_both:
  "(\<forall>s'. set_suffix_index_by_dfs f s node l = Some s' \<longrightarrow> only_leaf_indices_changed s s')"
  "(\<forall>s'. dfs_children f s cs l = Some s' \<longrightarrow> only_leaf_indices_changed s s')"
proof (induction f s node l and f s cs l rule: set_suffix_index_by_dfs_dfs_children.induct)
  case (1 s node label_length)
  show ?case by simp
next
  case (2 f s label_length)
  show ?case by (simp add: only_leaf_indices_changed_refl)
next
  case (3 f s n label_length)
  show ?case
  proof (cases "length (children (nodes s ! n)) = 0")
    case True
    then show ?thesis using only_leaf_indices_changed_set_index [of s n] by simp
  next
    case False
    with 3 show ?thesis by simp
  qed
next
  case (4 f s label_length)
  show ?case by (simp add: only_leaf_indices_changed_refl)
next
  case (5 f s child cs label_length)
  show ?case
  proof (intro allI impI)
    fix s'
    assume r: "dfs_children f s (child # cs) label_length = Some s'"
    then obtain s1 where
      a: "set_suffix_index_by_dfs f s (Some child) (label_length + edge_length s child) = Some s1"
      and b: "dfs_children f s1 cs label_length = Some s'"
      by (auto split: option.splits)
    from "5.IH"(1) a have "only_leaf_indices_changed s s1" by blast
    moreover from "5.IH"(2) [OF a] b have "only_leaf_indices_changed s1 s'" by blast
    ultimately show "only_leaf_indices_changed s s'" by (rule only_leaf_indices_changed_trans)
  qed
qed

lemma only_leaf_indices_changed_fields:
  assumes o: "only_leaf_indices_changed s s'"
  shows "tree_text s' = tree_text s" "tree_size s' = tree_size s" "leaf_end s' = leaf_end s"
    "length (nodes s') = length (nodes s)"
    "n < length (nodes s) \<Longrightarrow> children (nodes s' ! n) = children (nodes s ! n)"
    "n < length (nodes s) \<Longrightarrow> start (nodes s' ! n) = start (nodes s ! n)"
    "n < length (nodes s) \<Longrightarrow> edge_end (nodes s' ! n) = edge_end (nodes s ! n)"
    "n < length (nodes s) \<Longrightarrow> suffix_link (nodes s' ! n) = suffix_link (nodes s ! n)"
    "n < length (nodes s) \<Longrightarrow> children (nodes s ! n) \<noteq> [] \<Longrightarrow> index (nodes s' ! n) = index (nodes s ! n)"
proof -
  from o have a: "s'\<lparr>nodes := nodes s\<rparr> = s" and la: "length (nodes s') = length (nodes s)"
    and na: "\<And>n. n < length (nodes s) \<Longrightarrow> (nodes s' ! n)\<lparr>index := index (nodes s ! n)\<rparr> = nodes s ! n"
    and ca: "\<And>n. n < length (nodes s) \<Longrightarrow> children (nodes s ! n) \<noteq> [] \<Longrightarrow> nodes s' ! n = nodes s ! n"
    by (simp_all add: only_leaf_indices_changed_def)
  have t: "tree_text s' = tree_text (s'\<lparr>nodes := nodes s\<rparr>)"
    "tree_size s' = tree_size (s'\<lparr>nodes := nodes s\<rparr>)"
    "leaf_end s' = leaf_end (s'\<lparr>nodes := nodes s\<rparr>)" by simp_all
  have n: "children (nodes s' ! n) = children ((nodes s' ! n)\<lparr>index := index (nodes s ! n)\<rparr>)"
    "start (nodes s' ! n) = start ((nodes s' ! n)\<lparr>index := index (nodes s ! n)\<rparr>)"
    "edge_end (nodes s' ! n) = edge_end ((nodes s' ! n)\<lparr>index := index (nodes s ! n)\<rparr>)"
    "suffix_link (nodes s' ! n) = suffix_link ((nodes s' ! n)\<lparr>index := index (nodes s ! n)\<rparr>)"
    by simp_all
  show "tree_text s' = tree_text s" "tree_size s' = tree_size s" "leaf_end s' = leaf_end s"
    by (simp_all only: t a)
  show "length (nodes s') = length (nodes s)" by (rule la)
  show "n < length (nodes s) \<Longrightarrow> children (nodes s' ! n) = children (nodes s ! n)"
    by (simp only: n na)
  show "n < length (nodes s) \<Longrightarrow> start (nodes s' ! n) = start (nodes s ! n)"
    by (simp only: n na)
  show "n < length (nodes s) \<Longrightarrow> edge_end (nodes s' ! n) = edge_end (nodes s ! n)"
    by (simp only: n na)
  show "n < length (nodes s) \<Longrightarrow> suffix_link (nodes s' ! n) = suffix_link (nodes s ! n)"
    by (simp only: n na)
  show "n < length (nodes s) \<Longrightarrow> children (nodes s ! n) \<noteq> [] \<Longrightarrow> index (nodes s' ! n) = index (nodes s ! n)"
    by (simp add: ca)
qed

text \<open>
  C10. Whatever the tree object, the node and the accumulated length: when the traversal
  returns, the text, the size, the leaf end and the number of nodes are what they were, every
  node has the children, start, end and suffix link it had, and a node with children has the
  index it had; the node records differ in the \<^verbatim>\<open>index\<close> field of childless nodes at
  most. Called on \<^verbatim>\<open>None\<close>, the traversal returns the tree object as it is.
\<close>

theorem dfs_changes_only_leaf_indices:
  "(set_suffix_index_by_dfs f s node l = Some s' \<longrightarrow>
      tree_text s' = tree_text s \<and> tree_size s' = tree_size s \<and> leaf_end s' = leaf_end s \<and>
      length (nodes s') = length (nodes s) \<and>
      (\<forall>n < length (nodes s).
         children (nodes s' ! n) = children (nodes s ! n) \<and>
         start (nodes s' ! n) = start (nodes s ! n) \<and>
         edge_end (nodes s' ! n) = edge_end (nodes s ! n) \<and>
         suffix_link (nodes s' ! n) = suffix_link (nodes s ! n) \<and>
         (children (nodes s ! n) \<noteq> [] \<longrightarrow> index (nodes s' ! n) = index (nodes s ! n))) \<and>
      only_leaf_indices_changed s s') \<and>
   set_suffix_index_by_dfs (Suc f) s None l = Some s"
proof -
  have "tree_text s' = tree_text s \<and> tree_size s' = tree_size s \<and> leaf_end s' = leaf_end s \<and>
      length (nodes s') = length (nodes s) \<and>
      (\<forall>n < length (nodes s).
         children (nodes s' ! n) = children (nodes s ! n) \<and>
         start (nodes s' ! n) = start (nodes s ! n) \<and>
         edge_end (nodes s' ! n) = edge_end (nodes s ! n) \<and>
         suffix_link (nodes s' ! n) = suffix_link (nodes s ! n) \<and>
         (children (nodes s ! n) \<noteq> [] \<longrightarrow> index (nodes s' ! n) = index (nodes s ! n)))"
    if o: "only_leaf_indices_changed s s'"
    using only_leaf_indices_changed_fields [OF o] by simp
  with dfs_frame_both(1) [of f s node l] show ?thesis by auto
qed

theorem dfs_changes_only_leaf_indices_witness:
  "set_suffix_index_by_dfs 3 (projr (the (explicit_tree ''a''))) (Some root) 0 =
     Some (the (set_suffix_index_by_dfs 3 (projr (the (explicit_tree ''a''))) (Some root) 0)) \<and>
   only_leaf_indices_changed (projr (the (explicit_tree ''a'')))
     (the (set_suffix_index_by_dfs 3 (projr (the (explicit_tree ''a''))) (Some root) 0)) \<and>
   map index (nodes (projr (the (explicit_tree ''a'')))) = [- 1, - 1, - 1] \<and>
   map index
     (nodes (the (set_suffix_index_by_dfs 3 (projr (the (explicit_tree ''a''))) (Some root) 0))) =
     [- 1, 0, 1]"
proof -
  let ?S = "projr (the (explicit_tree ''a''))"
  let ?S' = "the (set_suffix_index_by_dfs 3 ?S (Some root) 0)"
  have h: "set_suffix_index_by_dfs 3 ?S (Some root) 0 = Some ?S'" by code_simp
  have i: "map index (nodes ?S) = [- 1, - 1, - 1]" by code_simp
  have j: "map index (nodes ?S') = [- 1, 0, 1]" by code_simp
  from dfs_changes_only_leaf_indices [of 3 ?S "Some root" 0 ?S'] h
  have "only_leaf_indices_changed ?S ?S'" by blast
  with h i j show ?thesis by blast
qed

subsection \<open>Edge labels lie in the text\<close>

lemma start_set_child [simp]: "start (set_child p c k ns ! n) = start (ns ! n)"
  by (cases "p < length ns"; cases "n = p") (simp_all add: set_child_def list_update_beyond not_less)

lemma edge_end_set_child [simp]: "edge_end (set_child p c k ns ! n) = edge_end (ns ! n)"
  by (cases "p < length ns"; cases "n = p") (simp_all add: set_child_def list_update_beyond not_less)

lemma start_set_suffix_link [simp]: "start (set_suffix_link p l ns ! n) = start (ns ! n)"
  by (cases "p < length ns"; cases "n = p") (simp_all add: set_suffix_link_def list_update_beyond not_less)

lemma edge_end_set_suffix_link [simp]: "edge_end (set_suffix_link p l ns ! n) = edge_end (ns ! n)"
  by (cases "p < length ns"; cases "n = p") (simp_all add: set_suffix_link_def list_update_beyond not_less)

lemma edge_end_set_start [simp]: "edge_end (set_start p v ns ! n) = edge_end (ns ! n)"
  by (cases "p < length ns"; cases "n = p") (simp_all add: set_start_def list_update_beyond not_less)

lemma start_set_start:
  "p < length ns \<Longrightarrow> start (set_start p v ns ! n) = (if n = p then v else start (ns ! n))"
  by (simp add: set_start_def)

lemma node_ok_mono: "node_ok le nd \<Longrightarrow> le \<le> le' \<Longrightarrow> node_ok le' nd"
  by (fastforce simp: node_ok_def)

lemma edges_in_range_mono: "edges_in_range le ns \<Longrightarrow> le \<le> le' \<Longrightarrow> edges_in_range le' ns"
  unfolding edges_in_range_def using node_ok_mono by blast

lemma edges_in_range_set_child [simp]:
  "edges_in_range le (set_child p c k ns) = edges_in_range le ns"
  by (simp add: edges_in_range_def node_ok_def)

lemma edges_in_range_set_suffix_link [simp]:
  "edges_in_range le (set_suffix_link p l ns) = edges_in_range le ns"
  by (simp add: edges_in_range_def node_ok_def)

lemma edges_in_range_append:
  "edges_in_range le ns \<Longrightarrow> node_ok le x \<Longrightarrow> edges_in_range le (ns @ [x])"
  by (simp add: edges_in_range_def nth_append less_Suc_eq)

lemma edges_in_range_set_start:
  assumes "edges_in_range le ns" and "p < length ns"
    and "0 \<le> v" and "v \<le> le + 1" and "\<And>e. edge_end (ns ! p) = Fixed e \<Longrightarrow> v \<le> e + 1 \<and> e \<le> le"
  shows "edges_in_range le (set_start p v ns)"
  unfolding edges_in_range_def
proof (intro allI impI)
  fix n
  assume n: "n < length (set_start p v ns)" and r: "n \<noteq> root"
  show "node_ok le (set_start p v ns ! n)"
  proof (cases "n = p")
    case True
    with assms show ?thesis by (simp add: node_ok_def start_set_start)
  next
    case False
    with assms(1,2) n r show ?thesis
      by (simp add: edges_in_range_def node_ok_def start_set_start)
  qed
qed

lemma set_update_subset: "set (AList.update c k xs) \<subseteq> insert (c, k) (set xs)"
  by (induction xs) auto

lemma root_no_child_set_child:
  assumes "root_no_child ns" and "k \<noteq> root"
  shows "root_no_child (set_child p c k ns)"
proof (cases "p < length ns")
  case True
  have "(c', root) \<notin> set (AList.update c k (children (ns ! p)))" for c'
  proof
    assume "(c', root) \<in> set (AList.update c k (children (ns ! p)))"
    with set_update_subset [of c k "children (ns ! p)"] assms(2)
    have "(c', root) \<in> set (children (ns ! p))" by auto
    with assms(1) True show False
      by (simp add: root_no_child_def)
  qed
  with assms(1) True show ?thesis
    by (simp add: root_no_child_def children_set_child)
next
  case False
  with assms(1) show ?thesis by (simp add: set_child_def list_update_beyond not_less)
qed

lemma root_no_child_set_suffix_link [simp]:
  "root_no_child (set_suffix_link p l ns) = root_no_child ns"
  by (simp add: root_no_child_def)

lemma root_no_child_set_start [simp]: "root_no_child (set_start p v ns) = root_no_child ns"
  by (simp add: root_no_child_def)

lemma root_no_child_append:
  "root_no_child ns \<Longrightarrow> children x = [] \<Longrightarrow> root_no_child (ns @ [x])"
  by (simp add: root_no_child_def nth_append less_Suc_eq)

lemma node_ok_new_leaf: "0 \<le> pos \<Longrightarrow> pos \<le> le + 1 \<Longrightarrow> node_ok le (new_node pos Shared)"
  by (simp add: node_ok_def new_node_def)

lemma edges_ok_new_leaf:
  assumes "edges_ok s" and "active_node s < length (nodes s)" and "0 \<le> pos" and "pos \<le> leaf_end s + 1"
  shows "edges_ok (new_leaf pos c s)"
proof -
  let ?ns = "set_child (active_node s) c (length (nodes s)) (nodes s @ [new_node pos Shared])"
  from assms(1) have al: "0 \<le> active_length s" and er: "edges_in_range (leaf_end s) (nodes s)"
    and rc: "root_no_child (nodes s)" by (simp_all add: edges_ok_def)
  from assms(2) have N: "length (nodes s) \<noteq> root" by (auto simp: root_def)
  have 1: "edges_in_range (leaf_end s) ?ns"
    using edges_in_range_append [OF er node_ok_new_leaf [OF assms(3,4)]] by simp
  have 2: "root_no_child ?ns"
    by (rule root_no_child_set_child [OF root_no_child_append [OF rc] N]) simp
  from al 1 2 show ?thesis
    by (simp add: new_leaf_def Let_def edges_ok_def split: option.splits)
qed

lemma edges_ok_premature_stop: "edges_ok s \<Longrightarrow> edges_ok (premature_stop s)"
  by (simp add: premature_stop_def Let_def edges_ok_def split: option.splits)

lemma edges_ok_split_edge:
  assumes ok: "edges_ok s" and an: "active_node s < length (nodes s)"
    and nx: "nx < length (nodes s)" and ch: "map_of (children (nodes s ! active_node s)) c0 = Some nx"
    and el: "\<not> edge_length s nx \<le> active_length s"
    and pos: "0 \<le> pos" "pos \<le> leaf_end s + 1"
    and sp: "split_edge pos c0 nx tp s = Extended s'"
  shows "edges_ok s'"
proof -
  let ?N = "length (nodes s)"
  let ?le = "leaf_end s"
  let ?split = "new_node (start (nodes s ! nx)) (Fixed (start (nodes s ! nx) + active_length s - 1))"
  let ?ns1 = "set_child (active_node s) c0 ?N (nodes s @ [?split])"
  let ?ns2 = "set_child ?N tp (Suc ?N) (?ns1 @ [new_node pos Shared])"
  let ?v = "start (nodes s ! nx) + active_length s"
  let ?ns3 = "set_start nx ?v ?ns2"
  from ok have al: "0 \<le> active_length s" and er: "edges_in_range ?le (nodes s)"
    and rc: "root_no_child (nodes s)" by (simp_all add: edges_ok_def)
  from ch have "(c0, nx) \<in> set (children (nodes s ! active_node s))" by (rule map_of_SomeD)
  with rc an have nr: "nx \<noteq> root" by (auto simp: root_no_child_def)
  from er nx nr have nk: "node_ok ?le (nodes s ! nx)" by (simp add: edges_in_range_def)
  have ev: "start (nodes s ! nx) + active_length s \<le> e" if "edge_end (nodes s ! nx) = Fixed e" for e
    using el that by (simp add: edge_length_def)
  have sv: "start (nodes s ! nx) + active_length s \<le> ?le"
  proof (cases "edge_end (nodes s ! nx)")
    case (Fixed e)
    with ev [OF Fixed] nk show ?thesis by (simp add: node_ok_def)
  next
    case Shared
    with el show ?thesis by (simp add: edge_length_def)
  qed
  from an have N: "?N \<noteq> root" "Suc ?N \<noteq> root" by (auto simp: root_def)
  have e2: "edge_end (?ns2 ! nx) = edge_end (nodes s ! nx)" using nx by (simp add: nth_append)
  have k1: "node_ok ?le ?split"
    using nk al sv by (simp add: node_ok_def new_node_def)
  have r1: "edges_in_range ?le ?ns1" using edges_in_range_append [OF er k1] by simp
  have r2: "edges_in_range ?le ?ns2"
    using edges_in_range_append [OF r1 node_ok_new_leaf [OF pos]] by simp
  have r3: "edges_in_range ?le ?ns3"
  proof (rule edges_in_range_set_start [OF r2])
    show "nx < length ?ns2" using nx by simp
    show "0 \<le> ?v" using nk al by (simp add: node_ok_def)
    show "?v \<le> ?le + 1" using sv by simp
    show "?v \<le> e + 1 \<and> e \<le> ?le" if "edge_end (?ns2 ! nx) = Fixed e" for e
      using that ev [of e] nk unfolding e2 by (simp add: node_ok_def)
  qed
  have c1: "root_no_child ?ns1"
    by (rule root_no_child_set_child [OF root_no_child_append [OF rc] N(1)]) simp
  have c2: "root_no_child ?ns2"
    by (rule root_no_child_set_child [OF root_no_child_append [OF c1] N(2)]) simp
  have c3: "root_no_child ?ns3" using c2 by simp
  have c4: "root_no_child (set_child ?N c nx ?ns3)" for c
    by (rule root_no_child_set_child [OF c3 nr])
  from sp nx obtain c where
    s': "s' = s\<lparr>nodes := (case last_new_node s of
                            None \<Rightarrow> set_child ?N c nx ?ns3
                          | Some l \<Rightarrow> set_suffix_link l ?N (set_child ?N c nx ?ns3)),
               last_new_node := Some ?N\<rparr>"
    by (auto simp: split_edge_def Let_def nth_append split: sum.splits)
  from al r3 c4 [of c] show ?thesis
    by (simp add: s' edges_ok_def split: option.splits)
qed

lemma edges_ok_extend_once:
  assumes inv: "tree_inv s" and ok: "edges_ok s" and pos: "0 \<le> pos" "pos \<le> leaf_end s + 1"
  shows "case extend_once pos s of
           Skipped s' \<Rightarrow> edges_ok s' \<and> leaf_end s' = leaf_end s
         | Stopped s' \<Rightarrow> edges_ok s' \<and> leaf_end s' = leaf_end s
         | Extended s' \<Rightarrow> edges_ok s' \<and> leaf_end s' = leaf_end s
         | Raised e \<Rightarrow> True"
proof -
  define s1 where "s1 = (if active_length s = 0 then s\<lparr>active_edge := pos\<rparr> else s)"
  have inv1: "tree_inv s1" using inv by (simp add: s1_def tree_inv_def)
  have ok1: "edges_ok s1" using ok by (simp add: s1_def edges_ok_def)
  have le1: "leaf_end s1 = leaf_end s" by (simp add: s1_def)
  from inv1 have an: "active_node s1 < length (nodes s1)" by (simp add: tree_inv_def)
  from pos le1 have pos1: "0 \<le> pos" "pos \<le> leaf_end s1 + 1" by simp_all
  show ?thesis
  proof (cases "subscript (tree_text s1) (active_edge s1)")
    case (Inl e)
    then show ?thesis by (simp add: extend_once_def Let_def s1_def)
  next
    case (Inr c)
    show ?thesis
    proof (cases "map_of (children (nodes s1 ! active_node s1)) c")
      case None
      with Inr edges_ok_new_leaf [OF ok1 an pos1] le1 show ?thesis
        by (simp add: extend_once_def Let_def s1_def)
    next
      case (Some nx)
      from inv1 have nx: "nx < length (nodes s1)"
        by (auto simp: tree_inv_def intro: tree_shaped_child_bound [OF _ _ Some])
      have skip: "edges_ok (s1\<lparr>active_edge := x, active_length := active_length s1 - el,
                                active_node := nx\<rparr>)" if "el \<le> active_length s1" for x el
        using ok1 that by (simp add: edges_ok_def)
      have split: "edges_ok s' \<and> leaf_end s' = leaf_end s"
        if "\<not> edge_length s1 nx \<le> active_length s1" and "split_edge pos c nx b s1 = Extended s'"
        for b s'
        using edges_ok_split_edge [OF ok1 an nx Some that(1) pos1 that(2)]
          leaf_end_split_edge [OF that(2)] le1 by simp
      have nosplit: "split_edge pos c nx b s1 \<noteq> Skipped x" "split_edge pos c nx b s1 \<noteq> Stopped x"
        for b x
        by (auto simp: split_edge_def Let_def split: sum.splits)
      have eo: "extend_once pos s =
        (let el = edge_length s1 nx
         in if active_length s1 \<ge> el
            then Skipped (s1\<lparr>active_edge := active_edge s1 + el,
                            active_length := active_length s1 - el,
                            active_node := nx\<rparr>)
            else case subscript (tree_text s1) (start (nodes s1 ! nx) + active_length s1) of
                   Inl e \<Rightarrow> Raised e
                 | Inr a \<Rightarrow>
                     (case subscript (tree_text s1) pos of
                        Inl e \<Rightarrow> Raised e
                      | Inr b \<Rightarrow>
                          if a = b then Stopped (premature_stop s1)
                          else split_edge pos c nx b s1))"
        using Inr Some unfolding extend_once_def s1_def [symmetric] Let_def by simp
      show ?thesis
        unfolding eo Let_def
        using skip edges_ok_premature_stop [OF ok1] split nosplit le1
        by (auto split: sum.splits outcome.splits)
    qed
  qed
qed

lemma edges_ok_update_active_point:
  "edges_ok s \<Longrightarrow> edges_ok (update_active_point pos (s\<lparr>remaining_suffix_count := r\<rparr>))"
  by (simp add: update_active_point_def edges_ok_def)

lemma edges_ok_extension_loop:
  assumes run: "extension_loop pos s = Some (Inr s')"
    and inv: "tree_inv s" and ok: "edges_ok s" and pos: "0 \<le> pos" and le: "leaf_end s = pos"
  shows "edges_ok s' \<and> leaf_end s' = pos"
proof -
  let ?I = "\<lambda>x. tree_inv x \<and> edges_ok x \<and> leaf_end x = pos"
  let ?Q = "\<lambda>r. case r of Inr x \<Rightarrow> edges_ok x \<and> leaf_end x = pos | Inl (e :: error) \<Rightarrow> True"
  have "?Q (Inr s')"
  proof (rule extension_loop_rule [where I = ?I and Q = ?Q, OF run])
    show "?I s" using inv ok le by simp
  next
    fix s s1 :: suffix_tree
    assume i: "?I s"
    then have ti: "tree_inv s" and eo: "edges_ok s" and l: "leaf_end s = pos" by simp_all
    from pos l have p: "0 \<le> pos" "pos \<le> leaf_end s + 1" by simp_all
    note E = edges_ok_extend_once [OF ti eo p]
    note T = tree_inv_extend_once [OF ti, of pos]
    {
      assume "extend_once pos s = Skipped s1"
      with E T l show "?I s1" by simp
    }
    {
      assume "extend_once pos s = Stopped s1"
      with E l show "?Q (Inr s1)" by simp
    }
    {
      assume x: "extend_once pos s = Extended s1"
      with E T l have "tree_inv s1" "edges_ok s1" "leaf_end s1 = pos" by simp_all
      then show "?I (update_active_point pos
                   (s1\<lparr>remaining_suffix_count := remaining_suffix_count s1 - 1\<rparr>))"
        using tree_inv_update_active_point edges_ok_update_active_point by simp
    }
    show "?Q (Inr s)" using i by simp
  qed simp
  then show ?thesis by simp
qed

lemma edges_ok_phase_header:
  assumes "edges_ok s" and "leaf_end s \<le> pos"
  shows "edges_ok (phase_header pos s)"
  using assms edges_in_range_mono [of "leaf_end s" "nodes s" pos]
  by (simp add: phase_header_def edges_ok_def)

lemma edges_ok_extend_suffix_tree:
  assumes "extend_suffix_tree pos s = Some (Inr s')" and "tree_inv s" and "edges_ok s"
    and "0 \<le> pos" and "leaf_end s \<le> pos"
  shows "edges_ok s' \<and> leaf_end s' = pos"
proof (rule edges_ok_extension_loop)
  show "extension_loop pos (phase_header pos s) = Some (Inr s')"
    using assms(1) by (simp add: extend_suffix_tree_def)
  show "tree_inv (phase_header pos s)" using assms(2) by (rule tree_inv_phase_header)
  show "edges_ok (phase_header pos s)" using assms(3,5) by (rule edges_ok_phase_header)
  show "0 \<le> pos" by fact
  show "leaf_end (phase_header pos s) = pos" by (simp add: phase_header_def)
qed

lemma edges_ok_build_phases:
  "build_phases n pos s = Some (Inr s') \<Longrightarrow> tree_inv s \<Longrightarrow> edges_ok s \<Longrightarrow> 0 \<le> pos \<Longrightarrow>
   leaf_end s < pos \<Longrightarrow> edges_ok s' \<and> leaf_end s' < pos + int n"
proof (induction n arbitrary: pos s)
  case 0
  then show ?case by simp
next
  case (Suc n)
  from Suc.prems(1) obtain s1 where 1: "extend_suffix_tree pos s = Some (Inr s1)"
    and 2: "build_phases n (pos + 1) s1 = Some (Inr s')"
    by (auto split: option.splits sum.splits)
  from Suc.prems have le: "leaf_end s \<le> pos" by simp
  from edges_ok_extend_suffix_tree [OF 1 Suc.prems(2,3,4) le]
  have e1: "edges_ok s1" and l1: "leaf_end s1 < pos + 1" by simp_all
  have t1: "tree_inv s1" by (rule tree_inv_extend_suffix_tree [OF 1 Suc.prems(2)])
  from Suc.prems(4) have p1: "0 \<le> pos + 1" by simp
  from Suc.IH [OF 2 t1 e1 p1 l1] show ?case by simp
qed

lemma edges_ok_init_tree: "edges_ok (init_tree t)"
  by (simp add: init_tree_def edges_ok_def edges_in_range_def root_no_child_def root_def new_node_def)

lemma edges_ok_SuffixTree:
  assumes "SuffixTree t = Some (Inr s)"
  shows "edges_ok s \<and> leaf_end s < int (length t)"
proof -
  from assms have "build_phases (length t) 0 (init_tree t) = Some (Inr s)"
    by (simp add: SuffixTree_def build_suffix_tree_def init_tree_def)
  from edges_ok_build_phases [OF this tree_inv_init_tree edges_ok_init_tree]
  show ?thesis by (simp add: init_tree_def)
qed

lemma edges_ok_make_explicit:
  assumes run: "make_explicit s = Some (Inr s')" and inv: "tree_inv s" and ok: "edges_ok s"
    and sz: "0 \<le> tree_size s" and le: "leaf_end s \<le> tree_size s"
  shows "edges_ok s' \<and> leaf_end s' = tree_size s"
proof -
  let ?s2 = "s\<lparr>tree_text := tree_text s @ ''$'', tree_size := tree_size s + 1,
               leaf_end := tree_size s, leaf_end_writes := leaf_end_writes s @ [tree_size s],
               remaining_suffix_count := remaining_suffix_count s + 1, last_new_node := None\<rparr>"
  from run have 1: "extend_suffix_tree (tree_size s) ?s2 = Some (Inr s')"
    by (simp add: make_explicit_def Let_def)
  from inv have 2: "tree_inv ?s2" by (simp add: tree_inv_def)
  from ok le edges_in_range_mono [of "leaf_end s" "nodes s" "tree_size s"]
  have 3: "edges_ok ?s2" by (simp add: edges_ok_def)
  from edges_ok_extend_suffix_tree [OF 1 2 3 sz] show ?thesis by simp
qed

lemma edges_ok_explicit_tree:
  assumes "explicit_tree t = Some (Inr s)"
  shows "edges_ok s \<and> leaf_end s = int (length t)"
proof -
  from assms obtain s0 where 1: "SuffixTree t = Some (Inr s0)" and 2: "make_explicit s0 = Some (Inr s)"
    by (auto simp: explicit_tree_def split: option.splits sum.splits)
  from SuffixTree_text [OF 1] have sz: "tree_size s0 = int (length t)" by simp
  from edges_ok_SuffixTree [OF 1] have ok: "edges_ok s0" and le: "leaf_end s0 < int (length t)"
    by simp_all
  from edges_ok_make_explicit [OF 2 tree_inv_SuffixTree [OF 1] ok] sz le show ?thesis by simp
qed

lemma length_slice:
  assumes "0 \<le> i" and "i \<le> j" and "j \<le> int (length t)"
  shows "int (length (slice t i j)) = j - i"
proof -
  from assms have "nat (j - i) \<le> length t - nat i" by linarith
  with assms show ?thesis by (simp add: slice_def Let_def min_def)
qed

lemma length_edge_label:
  assumes ok: "edges_ok s" and le: "leaf_end s < int (length (tree_text s))"
    and n: "n < length (nodes s)" "n \<noteq> root"
  shows "int (length (edge_label s n)) = edge_length s n"
proof -
  from ok n have k: "node_ok (leaf_end s) (nodes s ! n)"
    by (simp add: edges_ok_def edges_in_range_def)
  show ?thesis
  proof (cases "edge_end (nodes s ! n)")
    case (Fixed e)
    with k le have "0 \<le> start (nodes s ! n)" "start (nodes s ! n) \<le> e + 1"
      "e + 1 \<le> int (length (tree_text s))" by (simp_all add: node_ok_def)
    from length_slice [OF this] Fixed show ?thesis
      by (simp add: edge_label_def edge_length_def)
  next
    case Shared
    with k le have "0 \<le> start (nodes s ! n)" "start (nodes s ! n) \<le> leaf_end s + 1"
      "leaf_end s + 1 \<le> int (length (tree_text s))" by (simp_all add: node_ok_def)
    from length_slice [OF this] Shared show ?thesis
      by (simp add: edge_label_def edge_length_def)
  qed
qed

lemma length_path_label:
  assumes ok: "edges_ok s" and le: "leaf_end s < int (length (tree_text s))"
    and ks: "\<And>k. k \<in> set ks \<Longrightarrow> k < length (nodes s) \<and> k \<noteq> root"
  shows "int (length (path_label s ks)) = label_length s ks"
  using ks
proof (induction ks)
  case Nil
  show ?case by (simp add: path_label_def label_length_def)
next
  case (Cons k ks)
  from Cons.prems have "k < length (nodes s)" "k \<noteq> root" by simp_all
  from length_edge_label [OF ok le this] Cons.IH Cons.prems show ?case
    by (simp add: path_label_def label_length_def)
qed

subsection \<open>The indices the traversal assigns\<close>

lemma only_leaf_indices_changed_edge_length:
  assumes "only_leaf_indices_changed s s'" and "n < length (nodes s)"
  shows "edge_length s' n = edge_length s n"
  using only_leaf_indices_changed_fields(3) [OF assms(1)]
    only_leaf_indices_changed_fields(6,7) [OF assms]
  by (simp add: edge_length_def split: end_ref.splits)

lemma tree_shaped_ranked:
  assumes "tree_shaped (nodes s)"
  shows "\<exists>h. ranked s h"
proof -
  from assms have d: "\<And>n. n < length (nodes s) \<Longrightarrow> distinct (map fst (children (nodes s ! n)))"
    and f: "forest (child_entries (nodes s)) (length (nodes s))"
    by (simp_all add: tree_shaped_def)
  from forestD [OF f] obtain h :: "nat \<Rightarrow> nat" where
    b: "\<And>n c k. (n, c, k) \<in> child_entries (nodes s) \<Longrightarrow> n < length (nodes s) \<and> k < length (nodes s)"
    and u: "\<And>n c k n' c'. (n, c, k) \<in> child_entries (nodes s) \<Longrightarrow>
              (n', c', k) \<in> child_entries (nodes s) \<Longrightarrow> n = n' \<and> c = c'"
    and h: "\<And>n c k. (n, c, k) \<in> child_entries (nodes s) \<Longrightarrow> h k < h n"
    by blast
  have e: "\<exists>c. (n, c, k) \<in> child_entries (nodes s)"
    if "n < length (nodes s)" and "k \<in> snd ` set (children (nodes s ! n))" for n k
  proof -
    from that(2) obtain c where "(c, k) \<in> set (children (nodes s ! n))" by force
    with d [OF that(1)] have "map_of (children (nodes s ! n)) c = Some k" by simp
    with that(1) show ?thesis by (auto simp: child_entries_def)
  qed
  have "ranked s h"
    unfolding ranked_def
  proof (intro conjI allI impI)
    fix n k
    assume "n < length (nodes s) \<and> k \<in> snd ` set (children (nodes s ! n))"
    with e obtain c where "(n, c, k) \<in> child_entries (nodes s)" by blast
    with b h show "k < length (nodes s)" "h k < h n" by blast+
  next
    fix n n' k
    assume "n < length (nodes s) \<and> n' < length (nodes s) \<and>
        k \<in> snd ` set (children (nodes s ! n)) \<and> k \<in> snd ` set (children (nodes s ! n'))"
    with e obtain c c' where "(n, c, k) \<in> child_entries (nodes s)"
      "(n', c', k) \<in> child_entries (nodes s)" by blast
    with u show "n = n'" by blast
  qed
  then show ?thesis by blast
qed

lemma rankedD:
  assumes "ranked s h" and "n < length (nodes s)" and "k \<in> snd ` set (children (nodes s ! n))"
  shows "k < length (nodes s)" "h k < h n"
  using assms unfolding ranked_def by blast+

lemma ranked_parent:
  assumes "ranked s h" and "n < length (nodes s)" and "n' < length (nodes s)"
    and "k \<in> snd ` set (children (nodes s ! n))" and "k \<in> snd ` set (children (nodes s ! n'))"
  shows "n = n'"
  using assms unfolding ranked_def by blast

lemma descends_append:
  "descends s n (ks @ ks') \<longleftrightarrow> descends s n ks \<and> descends s (last (n # ks)) ks'"
  by (induction ks arbitrary: n) auto

lemma descends_bound:
  assumes "ranked s h" and "n < length (nodes s)" and "descends s n ks"
  shows "last (n # ks) < length (nodes s) \<and> h (last (n # ks)) \<le> h n \<and>
         (ks \<noteq> [] \<longrightarrow> h (last (n # ks)) < h n)"
  using assms(2,3)
proof (induction ks arbitrary: n)
  case Nil
  then show ?case by simp
next
  case (Cons k ks)
  from Cons.prems have k: "k \<in> snd ` set (children (nodes s ! n))" and d: "descends s k ks"
    by simp_all
  from rankedD [OF assms(1) Cons.prems(1) k] have kb: "k < length (nodes s)" and hk: "h k < h n" .
  from Cons.IH [OF kb d] hk show ?case by auto
qed

lemma path_unique:
  assumes R: "ranked s h" and r: "root < length (nodes s)"
    and "descends s root ks" and "descends s root ks'"
    and "last (root # ks) = last (root # ks')"
  shows "ks = ks'"
  using assms(3,4,5)
proof (induction ks arbitrary: ks' rule: rev_induct)
  case Nil
  show ?case
  proof (rule ccontr)
    assume "[] \<noteq> ks'"
    with descends_bound [OF R r Nil.prems(2)] have "h (last (root # ks')) < h root" by simp
    with Nil.prems(3) show False by simp
  qed
next
  case (snoc k ks)
  from snoc.prems(1) have d: "descends s root ks"
    and k: "k \<in> snd ` set (children (nodes s ! last (root # ks)))"
    by (simp_all add: descends_append)
  show ?case
  proof (cases ks' rule: rev_cases)
    case Nil
    from descends_bound [OF R r snoc.prems(1)] have "h (last (root # ks @ [k])) < h root" by simp
    with snoc.prems(3) Nil show ?thesis by simp
  next
    case (snoc ks1 k')
    with snoc.prems(3) have kk: "k' = k" by simp
    from snoc.prems(2) snoc kk have d1: "descends s root ks1"
      and k1: "k \<in> snd ` set (children (nodes s ! last (root # ks1)))"
      by (simp_all add: descends_append)
    from descends_bound [OF R r d] have b: "last (root # ks) < length (nodes s)" by simp
    from descends_bound [OF R r d1] have b1: "last (root # ks1) < length (nodes s)" by simp
    from ranked_parent [OF R b b1 k k1] have "last (root # ks) = last (root # ks1)" .
    from snoc.IH [OF d d1 this] snoc kk show ?thesis by simp
  qed
qed

lemma path_indexed_cong:
  assumes "path_indexed s0 s1 m" and "index (nodes s' ! m) = index (nodes s1 ! m)"
  shows "path_indexed s0 s' m"
  using assms by (simp add: path_indexed_def)

lemma index_frame_refl: "index_frame s0 s s"
  by (simp add: index_frame_def)

lemma index_frame_trans:
  assumes "index_frame s0 s s1" and "index_frame s0 s1 s'"
  shows "index_frame s0 s s'"
  unfolding index_frame_def
proof (intro allI impI)
  fix m
  assume m: "m < length (nodes s0)"
  from assms(1) m have 1: "index (nodes s1 ! m) = index (nodes s ! m) \<or> path_indexed s0 s1 m"
    by (simp add: index_frame_def)
  from assms(2) m have 2: "index (nodes s' ! m) = index (nodes s1 ! m) \<or> path_indexed s0 s' m"
    by (simp add: index_frame_def)
  from 1 2 path_indexed_cong [of s0 s1 m s']
  show "index (nodes s' ! m) = index (nodes s ! m) \<or> path_indexed s0 s' m" by auto
qed

lemma indexed_below_frame:
  assumes R: "ranked s0 h" and n: "n < length (nodes s0)"
    and b: "indexed_below s0 s1 n" and f: "index_frame s0 s1 s'"
  shows "indexed_below s0 s' n"
  unfolding indexed_below_def
proof (intro allI impI)
  fix ks
  assume a: "descends s0 n ks \<and> children (nodes s0 ! last (n # ks)) = []"
  with b have p: "path_indexed s0 s1 (last (n # ks))" by (simp add: indexed_below_def)
  from a descends_bound [OF R n] have "last (n # ks) < length (nodes s0)" by blast
  with f have "index (nodes s' ! last (n # ks)) = index (nodes s1 ! last (n # ks))
                 \<or> path_indexed s0 s' (last (n # ks))"
    by (simp add: index_frame_def)
  with p path_indexed_cong [of s0 s1 "last (n # ks)" s']
  show "path_indexed s0 s' (last (n # ks))" by blast
qed

lemma label_length_snoc: "label_length s (ks @ [k]) = label_length s ks + edge_length s k"
  by (simp add: label_length_def)

lemma dfs_children_correct:
  assumes R: "ranked s0 h" and r: "root < length (nodes s0)"
    and IH: "\<And>n s ps. h n < f \<Longrightarrow> n < length (nodes s0) \<Longrightarrow> only_leaf_indices_changed s0 s \<Longrightarrow>
               descends s0 root ps \<Longrightarrow> last (root # ps) = n \<Longrightarrow>
               \<exists>s'. set_suffix_index_by_dfs f s (Some n) (label_length s0 ps) = Some s' \<and>
                    only_leaf_indices_changed s0 s' \<and> index_frame s0 s s' \<and> indexed_below s0 s' n"
    and n: "n < length (nodes s0)" and hn: "h n \<le> f"
    and ps: "descends s0 root ps" "last (root # ps) = n"
    and cs: "set cs \<subseteq> snd ` set (children (nodes s0 ! n))"
    and o: "only_leaf_indices_changed s0 s"
  shows "\<exists>s'. dfs_children f s cs (label_length s0 ps) = Some s' \<and>
              only_leaf_indices_changed s0 s' \<and> index_frame s0 s s' \<and>
              (\<forall>c \<in> set cs. indexed_below s0 s' c)"
  using cs o
proof (induction cs arbitrary: s)
  case Nil
  then show ?case by (simp add: index_frame_refl)
next
  case (Cons c cs)
  from Cons.prems(1) have c: "c \<in> snd ` set (children (nodes s0 ! n))"
    and cs': "set cs \<subseteq> snd ` set (children (nodes s0 ! n))" by simp_all
  from rankedD [OF R n c] hn have cb: "c < length (nodes s0)" and hc: "h c < f" by simp_all
  from ps c have d: "descends s0 root (ps @ [c])" by (simp add: descends_append)
  have l: "last (root # ps @ [c]) = c" by simp
  from IH [OF hc cb Cons.prems(2) d l] obtain s1 where
    1: "set_suffix_index_by_dfs f s (Some c) (label_length s0 (ps @ [c])) = Some s1"
    and o1: "only_leaf_indices_changed s0 s1" and f1: "index_frame s0 s s1"
    and b1: "indexed_below s0 s1 c" by blast
  from Cons.IH [OF cs' o1] obtain s' where
    2: "dfs_children f s1 cs (label_length s0 ps) = Some s'"
    and o2: "only_leaf_indices_changed s0 s'" and f2: "index_frame s0 s1 s'"
    and b2: "\<forall>c \<in> set cs. indexed_below s0 s' c" by blast
  have e: "edge_length s c = edge_length s0 c"
    by (rule only_leaf_indices_changed_edge_length [OF Cons.prems(2) cb])
  from 1 2 e have "dfs_children f s (c # cs) (label_length s0 ps) = Some s'"
    by (simp add: label_length_snoc)
  moreover from f1 f2 have "index_frame s0 s s'" by (rule index_frame_trans)
  moreover from indexed_below_frame [OF R cb b1 f2] b2
  have "\<forall>c' \<in> set (c # cs). indexed_below s0 s' c'" by simp
  ultimately show ?case using o2 by blast
qed

lemma dfs_node_correct:
  assumes R: "ranked s0 h" and r: "root < length (nodes s0)"
  shows "h n < f \<Longrightarrow> n < length (nodes s0) \<Longrightarrow> only_leaf_indices_changed s0 s \<Longrightarrow>
         descends s0 root ps \<Longrightarrow> last (root # ps) = n \<Longrightarrow>
         \<exists>s'. set_suffix_index_by_dfs f s (Some n) (label_length s0 ps) = Some s' \<and>
              only_leaf_indices_changed s0 s' \<and> index_frame s0 s s' \<and> indexed_below s0 s' n"
proof (induction f arbitrary: n s ps)
  case 0
  then show ?case by simp
next
  case (Suc f)
  note n = Suc.prems(2) and o = Suc.prems(3) and d = Suc.prems(4) and l = Suc.prems(5)
  have ch: "children (nodes s ! n) = children (nodes s0 ! n)"
    by (rule only_leaf_indices_changed_fields(5) [OF o n])
  have len: "length (nodes s) = length (nodes s0)"
    by (rule only_leaf_indices_changed_fields(4) [OF o])
  have sz: "tree_size s = tree_size s0"
    by (rule only_leaf_indices_changed_fields(2) [OF o])
  show ?case
  proof (cases "children (nodes s0 ! n) = []")
    case True
    let ?s' = "s\<lparr>nodes := set_index n (tree_size s - label_length s0 ps) (nodes s)\<rparr>"
    have run: "set_suffix_index_by_dfs (Suc f) s (Some n) (label_length s0 ps) = Some ?s'"
      using True ch by simp
    have "only_leaf_indices_changed s ?s'"
      using True ch by (intro only_leaf_indices_changed_set_index) simp
    with o have o': "only_leaf_indices_changed s0 ?s'" by (rule only_leaf_indices_changed_trans)
    have i: "index (nodes ?s' ! n) = tree_size s0 - label_length s0 ps"
      using n len sz by (simp add: set_index_def)
    have j: "index (nodes ?s' ! m) = index (nodes s ! m)" if "m \<noteq> n" for m
      using that by (simp add: set_index_def)
    have p: "path_indexed s0 ?s' n"
      unfolding path_indexed_def
    proof (intro allI impI)
      fix ks
      assume "descends s0 root ks \<and> last (root # ks) = n"
      with path_unique [OF R r _ d, of ks] l have "ks = ps" by simp
      with i show "index (nodes ?s' ! n) = tree_size s0 - label_length s0 ks" by simp
    qed
    have fr: "index_frame s0 s ?s'"
      unfolding index_frame_def
    proof (intro allI impI)
      fix m
      show "index (nodes ?s' ! m) = index (nodes s ! m) \<or> path_indexed s0 ?s' m"
        using p j [of m] by (cases "m = n") blast+
    qed
    have "indexed_below s0 ?s' n"
      unfolding indexed_below_def
    proof (intro allI impI)
      fix ks
      assume a: "descends s0 n ks \<and> children (nodes s0 ! last (n # ks)) = []"
      with True have "ks = []" by (cases ks) simp_all
      with p show "path_indexed s0 ?s' (last (n # ks))" by simp
    qed
    with run o' fr show ?thesis by blast
  next
    case False
    have run: "set_suffix_index_by_dfs (Suc f) s (Some n) (label_length s0 ps)
                 = dfs_children f s (map snd (children (nodes s0 ! n))) (label_length s0 ps)"
      using False ch by simp
    from Suc.prems(1) have hn: "h n \<le> f" by simp
    have "\<exists>s'. dfs_children f s (map snd (children (nodes s0 ! n))) (label_length s0 ps) = Some s' \<and>
              only_leaf_indices_changed s0 s' \<and> index_frame s0 s s' \<and>
              (\<forall>c \<in> set (map snd (children (nodes s0 ! n))). indexed_below s0 s' c)"
      by (rule dfs_children_correct [OF R r Suc.IH n hn d l _ o]) simp_all
    then obtain s' where 1: "dfs_children f s (map snd (children (nodes s0 ! n))) (label_length s0 ps) = Some s'"
      and o': "only_leaf_indices_changed s0 s'" and fr: "index_frame s0 s s'"
      and b: "\<And>c. c \<in> snd ` set (children (nodes s0 ! n)) \<Longrightarrow> indexed_below s0 s' c"
      by auto
    have "indexed_below s0 s' n"
      unfolding indexed_below_def
    proof (intro allI impI)
      fix ks
      assume a: "descends s0 n ks \<and> children (nodes s0 ! last (n # ks)) = []"
      with False obtain c ks' where ks: "ks = c # ks'" by (cases ks) auto
      with a have c: "c \<in> snd ` set (children (nodes s0 ! n))" and dc: "descends s0 c ks'"
        and lf: "children (nodes s0 ! last (c # ks')) = []" by simp_all
      from b [OF c] dc lf have "path_indexed s0 s' (last (c # ks'))"
        by (simp add: indexed_below_def)
      with ks show "path_indexed s0 s' (last (n # ks))" by simp
    qed
    with run 1 o' fr show ?thesis by simp
  qed
qed

lemma explicit_tree_text:
  assumes "explicit_tree t = Some (Inr s)"
  shows "tree_text s = t @ ''$'' \<and> tree_size s = int (length (tree_text s))"
proof -
  from assms obtain s0 where 1: "SuffixTree t = Some (Inr s0)" and 2: "make_explicit s0 = Some (Inr s)"
    by (auto simp: explicit_tree_def split: option.splits sum.splits)
  from 1 build_phases_text [of _ 0 "init_tree t" s0]
  have a: "tree_text s0 = t \<and> tree_size s0 = int (length t)"
    by (simp add: SuffixTree_def build_suffix_tree_def init_tree_def)
  from 2 extension_loop_text [of "tree_size s0" _ s]
  have "tree_text s = tree_text s0 @ ''$'' \<and> tree_size s = tree_size s0 + 1"
    by (simp add: make_explicit_def extend_suffix_tree_def phase_header_def Let_def)
  with a show ?thesis by simp
qed

lemma descends_nodes:
  assumes "root_no_child (nodes s)" and "ranked s h" and "n < length (nodes s)"
    and "descends s n ks" and "k \<in> set ks"
  shows "k < length (nodes s) \<and> k \<noteq> root"
  using assms(3,4,5)
proof (induction ks arbitrary: n)
  case Nil
  then show ?case by simp
next
  case (Cons a ks)
  from Cons.prems(2) have a: "a \<in> snd ` set (children (nodes s ! n))" and d: "descends s a ks"
    by simp_all
  from rankedD(1) [OF assms(2) Cons.prems(1) a] have ab: "a < length (nodes s)" .
  from a assms(1) Cons.prems(1) have ar: "a \<noteq> root" by (auto simp: root_no_child_def)
  show ?case
  proof (cases "k = a")
    case True
    with ab ar show ?thesis by simp
  next
    case False
    with Cons.prems(3) have "k \<in> set ks" by simp
    from Cons.IH [OF ab d this] show ?thesis .
  qed
qed

text \<open>
  C8. On the tree that construction and finalization return for a text \<open>t\<close>, the size is
  the length of the terminated text \<open>t$\<close>, and the traversal from the root with accumulated
  length 0 returns whenever the recursion depth allowed is large enough. In the tree it
  returns, a childless node reached from the root along the nodes \<open>ks\<close> has as index the size
  minus the length of the string read along \<open>ks\<close>, the concatenation of the edge labels
  (which is what the traversal accumulates), and every node with children has the index -1.
\<close>

theorem dfs_indexes_leaves:
  assumes "explicit_tree t = Some (Inr s)"
  shows "tree_text s = t @ ''$'' \<and> tree_size s = int (length (tree_text s)) \<and>
         (\<exists>f0. \<forall>f \<ge> f0. \<exists>s'.
            set_suffix_index_by_dfs f s (Some root) 0 = Some s' \<and>
            (\<forall>ks. descends s root ks \<and> children (nodes s ! last (root # ks)) = [] \<longrightarrow>
               label_length s ks = int (length (path_label s ks)) \<and>
               index (nodes s' ! last (root # ks)) = tree_size s - int (length (path_label s ks))) \<and>
            (\<forall>n < length (nodes s). children (nodes s ! n) \<noteq> [] \<longrightarrow> index (nodes s' ! n) = - 1))"
proof -
  from tree_inv_explicit_tree [OF assms] have ts: "tree_shaped (nodes s)"
    and ui: "unindexed (nodes s)" and an: "active_node s < length (nodes s)"
    by (simp_all add: tree_inv_def)
  from an have r: "root < length (nodes s)" by (cases "nodes s") (simp_all add: root_def)
  from tree_shaped_ranked [OF ts] obtain h where R: "ranked s h" by blast
  from edges_ok_explicit_tree [OF assms] have ok: "edges_ok s" and le: "leaf_end s = int (length t)"
    by simp_all
  from ok have rc: "root_no_child (nodes s)" by (simp add: edges_ok_def)
  note tx = explicit_tree_text [OF assms]
  from le tx have lt: "leaf_end s < int (length (tree_text s))" by simp
  have pl: "label_length s ks = int (length (path_label s ks))" if "descends s root ks" for ks
    using length_path_label [OF ok lt, of ks] descends_nodes [OF rc R r that] by simp
  have "\<exists>s'. set_suffix_index_by_dfs f s (Some root) 0 = Some s' \<and>
            (\<forall>ks. descends s root ks \<and> children (nodes s ! last (root # ks)) = [] \<longrightarrow>
               label_length s ks = int (length (path_label s ks)) \<and>
               index (nodes s' ! last (root # ks)) = tree_size s - int (length (path_label s ks))) \<and>
            (\<forall>n < length (nodes s). children (nodes s ! n) \<noteq> [] \<longrightarrow> index (nodes s' ! n) = - 1)"
    if f: "Suc (h root) \<le> f" for f
  proof -
    from f have hf: "h root < f" by simp
    have d: "descends s root []" and l: "last (root # []) = root" by simp_all
    from dfs_node_correct [OF R r hf r only_leaf_indices_changed_refl d l]
    obtain s' where 1: "set_suffix_index_by_dfs f s (Some root) 0 = Some s'"
      and o: "only_leaf_indices_changed s s'" and b: "indexed_below s s' root"
      by (auto simp: label_length_def)
    have "label_length s ks = int (length (path_label s ks)) \<and>
          index (nodes s' ! last (root # ks)) = tree_size s - int (length (path_label s ks))"
      if "descends s root ks \<and> children (nodes s ! last (root # ks)) = []" for ks
    proof -
      from that b have "index (nodes s' ! last (root # ks)) = tree_size s - label_length s ks"
        unfolding indexed_below_def path_indexed_def by blast
      with pl [of ks] that show ?thesis by simp
    qed
    moreover have "index (nodes s' ! n) = - 1"
      if "n < length (nodes s)" and "children (nodes s ! n) \<noteq> []" for n
      using only_leaf_indices_changed_fields(9) [OF o that] ui that(1) by (simp add: unindexed_def)
    ultimately show ?thesis using 1 by blast
  qed
  with tx show ?thesis by blast
qed

theorem dfs_indexes_leaves_witness:
  "explicit_tree ''ab'' = Some (Inr (projr (the (explicit_tree ''ab'')))) \<and>
   descends (projr (the (explicit_tree ''ab''))) root [2] \<and>
   children (nodes (projr (the (explicit_tree ''ab''))) ! 2) = [] \<and>
   path_label (projr (the (explicit_tree ''ab''))) [2] = ''b$'' \<and>
   tree_text (projr (the (explicit_tree ''ab''))) = ''ab'' @ ''$'' \<and>
   tree_size (projr (the (explicit_tree ''ab''))) =
     int (length (tree_text (projr (the (explicit_tree ''ab''))))) \<and>
   (\<exists>f0. \<forall>f \<ge> f0. \<exists>s'.
      set_suffix_index_by_dfs f (projr (the (explicit_tree ''ab''))) (Some root) 0 = Some s' \<and>
      (\<forall>ks. descends (projr (the (explicit_tree ''ab''))) root ks \<and>
             children (nodes (projr (the (explicit_tree ''ab''))) ! last (root # ks)) = [] \<longrightarrow>
         label_length (projr (the (explicit_tree ''ab''))) ks =
           int (length (path_label (projr (the (explicit_tree ''ab''))) ks)) \<and>
         index (nodes s' ! last (root # ks)) =
           tree_size (projr (the (explicit_tree ''ab''))) -
           int (length (path_label (projr (the (explicit_tree ''ab''))) ks))) \<and>
      (\<forall>n < length (nodes (projr (the (explicit_tree ''ab'')))).
         children (nodes (projr (the (explicit_tree ''ab''))) ! n) \<noteq> [] \<longrightarrow>
         index (nodes s' ! n) = - 1))"
proof -
  have h: "explicit_tree ''ab'' = Some (Inr (projr (the (explicit_tree ''ab''))))"
    by code_simp
  have d: "descends (projr (the (explicit_tree ''ab''))) root [2]" by code_simp
  have c: "children (nodes (projr (the (explicit_tree ''ab''))) ! 2) = []" by code_simp
  have p: "path_label (projr (the (explicit_tree ''ab''))) [2] = ''b$''" by code_simp
  from h d c p dfs_indexes_leaves [OF h] show ?thesis by blast
qed

end
